theory Spec2Isabelle
  imports Main "HOL-Library.Word"
begin

unbundle bit_operations_syntax

section \<open>Data model of \<open>circulis.go\<close>\<close>

text \<open>
  The ring buffer of \<open>circulis.go\<close>. Go's \<open>byte\<close> is an 8-bit word and \<open>uint64\<close> a
  64-bit word whose arithmetic wraps. Go's \<open>int\<close> is taken to be the 64-bit signed
  integer of the common platforms. The counts \<open>n\<close>, \<open>total\<close>, \<open>free\<close>, \<open>toWrite\<close>,
  \<open>first\<close> and the like are HOL integers: the code only adds and subtracts them within
  the length of a slice, so they never overflow. The conversions \<open>int(x)\<close> and
  \<open>uint64(i)\<close> are \<open>sint\<close> and \<open>word_of_int\<close>.

  The struct's padding fields carry no data. The mutex is modelled by atomicity: every
  function below is one critical section, from taking the lock to returning or to
  suspending in \<open>Cond.Wait\<close>. The two condition variables are modelled by the result
  \<open>Wait\<close> of a call that suspends, and by an explicit resumption.
\<close>

type_synonym byte = "8 word"
type_synonym uint64 = "64 word"
type_synonym int64 = "64 word"

datatype error = ErrClosed | ErrFull | ErrEmpty

record Circulis =
  buf :: "byte list"
  mask_field :: uint64
  head :: uint64
  tail :: uint64
  closed :: bool
  blocking :: bool

text \<open>
  What a call of \<open>Read\<close> or \<open>Write\<close> does: it returns \<open>(n, err)\<close>, or it suspends in
  \<open>Cond.Wait\<close> having placed \<open>n\<close> bytes so far, or a slice expression is out of range and
  the Go runtime panics.
\<close>

datatype result = Return int "error option" | Wait int | Panic

text \<open>The largest value of Go's \<open>int\<close>.\<close>

definition max_int :: int where
  "max_int = 2 ^ 63 - 1"

section \<open>Construction\<close>

definition nextPowerOfTwo :: "uint64 \<Rightarrow> uint64" where
  "nextPowerOfTwo v =
     (if v = 0 then 1
      else
        let v = v - 1;
            v = v OR drop_bit 1 v;
            v = v OR drop_bit 2 v;
            v = v OR drop_bit 4 v;
            v = v OR drop_bit 8 v;
            v = v OR drop_bit 16 v;
            v = v OR drop_bit 32 v
        in v + 1)"

text \<open>
  The Go runtime's bound on the size of one allocation, \<open>maxAlloc\<close> of
  \<open>runtime/malloc.go\<close>: \<open>2 ^ 48\<close> bytes on 64-bit Linux.
\<close>

definition maxAlloc :: int where
  "maxAlloc = 2 ^ 48"

text \<open>
  \<open>New\<close> takes a Go \<open>int\<close>, here the 64-bit word of its two's complement form, read by
  \<open>sint\<close>; the conversion \<open>uint64(capacity)\<close> keeps the bits and is left out. \<open>New\<close> panics on a
  capacity below 1. The length given to \<open>make\<close> is a \<open>uint64\<close>; the runtime's
  \<open>makeslice\<close> panics with \<open>makeslice: len out of range\<close> when the length does not fit
  \<open>int\<close> or the bytes asked for exceed \<open>maxAlloc\<close>. Whether the machine has the memory
  for an allocation within \<open>maxAlloc\<close> is outside the model.
\<close>

definition New :: "int64 \<Rightarrow> string + Circulis" where
  "New capacity =
     (if sint capacity < 1 then Inl ''circulis: capacity must be > 0''
      else
        let cap2 = nextPowerOfTwo capacity in
        if uint cap2 > max_int \<or> uint cap2 > maxAlloc then Inl ''makeslice: len out of range''
        else Inr \<lparr> buf = replicate (unat cap2) 0, mask_field = cap2 - 1,
                   head = 0, tail = 0, closed = False, blocking = False \<rparr>)"

definition SetBlocking :: "Circulis \<Rightarrow> bool \<Rightarrow> Circulis" where
  "SetBlocking c b = c\<lparr>blocking := b\<rparr>"

definition Close :: "Circulis \<Rightarrow> Circulis" where
  "Close c = c\<lparr>closed := True\<rparr>"

section \<open>Slices\<close>

text \<open>
  \<open>copy(dst[dlo:dhi], src[slo:shi])\<close> on the list holding \<open>dst\<close>'s storage: both slice
  expressions are bounds-checked (\<open>None\<close> is the runtime panic), and \<open>copy\<close> moves as many
  elements as the shorter slice has. A slice is taken to have no capacity beyond its
  length; the upper indices the code forms on the caller's slice never pass its length.
\<close>

definition copy_seg :: "'a list \<Rightarrow> int \<Rightarrow> int \<Rightarrow> 'a list \<Rightarrow> int \<Rightarrow> int \<Rightarrow> 'a list option" where
  "copy_seg dst dlo dhi src slo shi =
     (if 0 \<le> dlo \<and> dlo \<le> dhi \<and> dhi \<le> int (length dst) \<and>
         0 \<le> slo \<and> slo \<le> shi \<and> shi \<le> int (length src)
      then
        let k = min (nat (dhi - dlo)) (nat (shi - slo)) in
        Some (take (nat dlo) dst @ take k (drop (nat slo) src) @ drop (nat dlo + k) dst)
      else None)"

section \<open>Write\<close>

text \<open>
  One pass of the body of \<open>Write\<close>'s loop below the test \<open>free == 0\<close>: the copy in up to
  two segments and the advance of \<open>tail\<close>. It gives the new buffer and \<open>toWrite\<close>, or the
  buffer as a panic leaves it.
\<close>

definition write_chunk :: "Circulis \<Rightarrow> byte list \<Rightarrow> int \<Rightarrow> int \<Rightarrow> Circulis + Circulis \<times> int" where
  "write_chunk c p n free =
     (let total = int (length p);
          toWrite = (if total - n > free then free else total - n);
          start = tail c AND mask_field c;
          endSpace = sint (word_of_nat (length (buf c)) - start);
          first = (if toWrite > endSpace then endSpace else toWrite)
      in case copy_seg (buf c) (uint start) (uint (start + word_of_int first)) p n (n + first) of
           None \<Rightarrow> Inl c
         | Some b1 \<Rightarrow>
             let second = toWrite - first in
             (case (if second > 0
                    then copy_seg b1 0 second p (n + first) (n + first + second)
                    else Some b1) of
                None \<Rightarrow> Inl (c\<lparr>buf := b1\<rparr>)
              | Some b2 \<Rightarrow> Inr (c\<lparr>buf := b2, tail := tail c + word_of_int toWrite\<rparr>, n + toWrite)))"

function write_loop :: "Circulis \<Rightarrow> byte list \<Rightarrow> int \<Rightarrow> Circulis \<times> result" where
  "write_loop c p n =
     (if n < int (length p) then
        let free = sint (word_of_nat (length (buf c)) - (tail c - head c)) in
        if free = 0 then
          (if \<not> blocking c then
             (if n = 0 then (c, Return 0 (Some ErrFull)) else (c, Return n (Some ErrFull)))
           else (c, Wait n))
        else
          (case write_chunk c p n free of
             Inl c' \<Rightarrow> (c', Panic)
           | Inr (c', n') \<Rightarrow> write_loop c' p n')
      else (c, Return n None))"
  by pat_completeness auto
termination
  by (relation "measure (\<lambda>(c, p, n). nat (int (length p) - n))")
     (auto simp: write_chunk_def copy_seg_def Let_def split: option.splits if_splits)

declare write_loop.simps [simp del]

definition Write :: "Circulis \<Rightarrow> byte list \<Rightarrow> Circulis \<times> result" where
  "Write c p = (if closed c then (c, Return 0 (Some ErrClosed)) else write_loop c p 0)"

text \<open>A writer woken from \<open>notFull.Wait()\<close> with \<open>n\<close> bytes placed so far.\<close>

definition write_resume :: "Circulis \<Rightarrow> byte list \<Rightarrow> int \<Rightarrow> Circulis \<times> result" where
  "write_resume c p n = (if closed c then (c, Return n (Some ErrClosed)) else write_loop c p n)"

section \<open>Read\<close>

text \<open>
  \<open>Read\<close> returns the caller's slice as the call leaves it. Its loop carries no state from
  one pass to the next, so a reader woken from \<open>notEmpty.Wait()\<close> runs \<open>Read\<close> again.
\<close>

definition Read :: "Circulis \<Rightarrow> byte list \<Rightarrow> Circulis \<times> byte list \<times> result" where
  "Read c p =
     (let available = sint (tail c - head c) in
      if available = 0 then
        (if closed c then (c, p, Return 0 (Some ErrClosed))
         else if \<not> blocking c then (c, p, Return 0 (Some ErrEmpty))
         else (c, p, Wait 0))
      else
        let toRead = (if int (length p) > available then available else int (length p));
            start = head c AND mask_field c;
            endSpace = sint (word_of_nat (length (buf c)) - start);
            first = (if toRead > endSpace then endSpace else toRead)
        in case copy_seg p 0 first (buf c) (uint start) (uint (start + word_of_int first)) of
             None \<Rightarrow> (c, p, Panic)
           | Some p1 \<Rightarrow>
               let second = toRead - first in
               (case (if second > 0
                      then copy_seg p1 first (first + second) (buf c) 0 second
                      else Some p1) of
                  None \<Rightarrow> (c, p1, Panic)
                | Some p2 \<Rightarrow> (c\<lparr>head := head c + word_of_int toRead\<rparr>, p2, Return toRead None)))"

section \<open>Goroutines sharing one buffer\<close>

text \<open>
  Any number of goroutines call the five operations. The mutex makes every critical section
  atomic, so an execution is a sequence of events: a goroutine runs a new call up to its
  return or its \<open>Wait\<close>, or a goroutine suspended in \<open>Wait\<close> is woken and runs on. Which
  waiter \<open>Signal\<close> and \<open>Broadcast\<close> wake, and when, is left open: \<open>Wake i\<close> resumes the
  \<open>i\<close>-th suspended goroutine at any moment. The flag records whether some call panicked.
\<close>

datatype waiter = WaitingWrite "byte list" int | WaitingRead "byte list"

datatype event = DoWrite "byte list" | DoRead "byte list" | DoSetBlocking bool | DoClose | Wake nat

type_synonym system = "Circulis \<times> waiter list \<times> bool"

fun park_write :: "byte list \<Rightarrow> result \<Rightarrow> waiter list" where
  "park_write p (Wait n) = [WaitingWrite p n]"
| "park_write p _ = []"

fun park_read :: "byte list \<Rightarrow> result \<Rightarrow> waiter list" where
  "park_read p (Wait n) = [WaitingRead p]"
| "park_read p _ = []"

fun step :: "system \<Rightarrow> event \<Rightarrow> system" where
  "step (c, ws, bad) (DoWrite p) =
     (let (c', r) = Write c p in (c', ws @ park_write p r, bad \<or> r = Panic))"
| "step (c, ws, bad) (DoRead p) =
     (let (c', p', r) = Read c p in (c', ws @ park_read p' r, bad \<or> r = Panic))"
| "step (c, ws, bad) (DoSetBlocking b) = (SetBlocking c b, ws, bad)"
| "step (c, ws, bad) DoClose = (Close c, ws, bad)"
| "step (c, ws, bad) (Wake i) =
     (if i < length ws then
        (case ws ! i of
           WaitingWrite p n \<Rightarrow>
             (let (c', r) = write_resume c p n
              in (c', take i ws @ park_write p r @ drop (Suc i) ws, bad \<or> r = Panic))
         | WaitingRead p \<Rightarrow>
             (let (c', p', r) = Read c p
              in (c', take i ws @ park_read p' r @ drop (Suc i) ws, bad \<or> r = Panic)))
      else (c, ws, bad))"

definition run :: "Circulis \<Rightarrow> event list \<Rightarrow> system" where
  "run c es = foldl step (c, [], False) es"

text \<open>One goroutine writing the slices \<open>ps\<close> one after the other.\<close>

fun write_all :: "Circulis \<Rightarrow> byte list list \<Rightarrow> Circulis \<times> result list" where
  "write_all c [] = (c, [])"
| "write_all c (p # ps) =
     (let (c', r) = Write c p; (c'', rs) = write_all c' ps in (c'', r # rs))"

text \<open>
  One goroutine alternating: each round writes \<open>p\<close>, then reads into \<open>q\<close>. A round gives
  the result of the write, the slice \<open>q\<close> after the read, and the result of the read.
\<close>

fun write_read_rounds ::
  "Circulis \<Rightarrow> (byte list \<times> byte list) list \<Rightarrow> (result \<times> byte list \<times> result) list" where
  "write_read_rounds c [] = []"
| "write_read_rounds c ((p, q) # rounds) =
     (let (c1, w) = Write c p; (c2, q', r) = Read c1 q
      in (w, q', r) # write_read_rounds c2 rounds)"

section \<open>The condition variables\<close>

text \<open>
  The events of \<open>step\<close> let any suspended goroutine run on at any moment. The monitor
  follows the code's calls of \<open>sync.Cond\<close>. \<open>Wait\<close> puts the caller at the back of the condition's
  list and returns only when \<open>Signal\<close> or \<open>Broadcast\<close> has woken the caller; \<open>Signal\<close>
  wakes the goroutine that has waited longest, and is lost when none waits; \<open>Broadcast\<close>
  wakes all. A woken goroutine runs on once it has the mutex back: here \<open>Wake i\<close> is the
  \<open>i\<close>-th woken goroutine running on.

  \<open>notEmpty\<close> holds the slices of the readers suspended in \<open>notEmpty.Wait()\<close>, \<open>notFull\<close>
  the slices and counts \<open>n\<close> of the writers suspended in \<open>notFull.Wait()\<close>.
\<close>

record monitor =
  shared :: Circulis
  notEmpty :: "byte list list"
  notFull :: "(byte list \<times> int) list"
  woken :: "waiter list"



definition signal_notEmpty :: "monitor \<Rightarrow> monitor" where
  "signal_notEmpty m =
     (case notEmpty m of
        [] \<Rightarrow> m
      | p # ps \<Rightarrow> m\<lparr>notEmpty := ps, woken := woken m @ [WaitingRead p]\<rparr>)"

definition signal_notFull :: "monitor \<Rightarrow> monitor" where
  "signal_notFull m =
     (case notFull m of
        [] \<Rightarrow> m
      | (p, n) # ws \<Rightarrow> m\<lparr>notFull := ws, woken := woken m @ [WaitingWrite p n]\<rparr>)"

text \<open>\<open>notEmpty.Broadcast()\<close> and \<open>notFull.Broadcast()\<close>, as \<open>SetBlocking\<close> and \<open>Close\<close> call them.\<close>

definition broadcast :: "monitor \<Rightarrow> monitor" where
  "broadcast m =
     m\<lparr>notEmpty := [], notFull := [],
       woken := woken m @ map WaitingRead (notEmpty m) @
                map (\<lambda>(p, n). WaitingWrite p n) (notFull m)\<rparr>"

text \<open>
  The end of a critical section of a writer, new or woken: its \<open>k\<close> signals are delivered,
  and the writer joins \<open>notFull\<close> when it suspends. A closed buffer is left before the loop
  and signals nothing.
\<close>

definition after_write :: "monitor \<Rightarrow> byte list \<Rightarrow> Circulis \<times> result \<Rightarrow> nat \<Rightarrow> monitor" where
  "after_write m p cr k =
     (let m1 = (signal_notEmpty ^^ k) (m\<lparr>shared := fst cr\<rparr>)
      in case snd cr of
           Wait n \<Rightarrow> m1\<lparr>notFull := notFull m1 @ [(p, n)]\<rparr>
         | _ \<Rightarrow> m1)"

text \<open>
  The end of a critical section of a reader: \<open>notFull.Signal()\<close> is called on the path
  that returns \<open>(n, nil)\<close> and on no other, and the reader joins \<open>notEmpty\<close> when it
  suspends.
\<close>

definition after_read :: "monitor \<Rightarrow> Circulis \<times> byte list \<times> result \<Rightarrow> monitor" where
  "after_read m cpr =
     (case snd (snd cpr) of
        Return n None \<Rightarrow> signal_notFull (m\<lparr>shared := fst cpr\<rparr>)
      | Wait n \<Rightarrow> m\<lparr>shared := fst cpr, notEmpty := notEmpty m @ [fst (snd cpr)]\<rparr>
      | _ \<Rightarrow> m\<lparr>shared := fst cpr\<rparr>)"



section \<open>The buffered bytes\<close>

text \<open>
  \<open>tail - head\<close> bytes are buffered; the byte at index \<open>head + i\<close> lives at the physical
  offset \<open>(head + i) & mask\<close>.
\<close>

definition used :: "Circulis \<Rightarrow> nat" where
  "used c = unat (tail c - head c)"

definition contents :: "Circulis \<Rightarrow> byte list" where
  "contents c = map (\<lambda>i. buf c ! unat ((head c + word_of_nat i) AND mask_field c)) [0..<used c]"

text \<open>A suspended writer has placed between 0 and \<open>len(p)\<close> bytes.\<close>

fun waiter_ok :: "waiter \<Rightarrow> bool" where
  "waiter_ok (WaitingWrite p n) \<longleftrightarrow> 0 \<le> n \<and> n \<le> int (length p)"
| "waiter_ok (WaitingRead p) \<longleftrightarrow> True"

text \<open>
  The shape of every buffer in use: the storage has \<open>2 ^ k\<close> bytes, \<open>mask\<close> is one less,
  and at most that many bytes are buffered.
\<close>

definition ring_inv :: "Circulis \<Rightarrow> bool" where
  "ring_inv c \<longleftrightarrow>
     (\<exists>k\<le>62. length (buf c) = 2 ^ k \<and> mask_field c = 2 ^ k - 1) \<and> used c \<le> length (buf c)"

text \<open>The buffer that \<open>New(8)\<close> returns.\<close>

definition ring8 :: Circulis where
  "ring8 = \<lparr> buf = [0, 0, 0, 0, 0, 0, 0, 0], mask_field = 7, head = 0, tail = 0,
             closed = False, blocking = False \<rparr>"

text \<open>What holds of the shared state after every event.\<close>

fun system_ok :: "system \<Rightarrow> bool" where
  "system_ok (c, ws, bad) \<longleftrightarrow> ring_inv c \<and> list_all waiter_ok ws \<and> \<not> bad"


text \<open>The six shift-and-or lines of \<open>nextPowerOfTwo\<close> on their own.\<close>

definition smear :: "uint64 \<Rightarrow> uint64" where
  "smear w =
     (let v = w;
          v = v OR drop_bit 1 v;
          v = v OR drop_bit 2 v;
          v = v OR drop_bit 4 v;
          v = v OR drop_bit 8 v;
          v = v OR drop_bit 16 v;
          v = v OR drop_bit 32 v
      in v)"

text \<open>
  A store of \<open>xs\<close> into the ring \<open>b\<close> from offset \<open>s\<close> in two segments, and a load of
  \<open>m\<close> bytes from offset \<open>s\<close> in two segments, as \<open>Write\<close> and \<open>Read\<close> do them.
\<close>

definition ring_put :: "'a list \<Rightarrow> nat \<Rightarrow> 'a list \<Rightarrow> 'a list" where
  "ring_put b s xs =
     (let first = min (length xs) (length b - s);
          b1 = take s b @ take first xs @ drop (s + first) b;
          second = length xs - first
      in if second > 0 then take second (drop first xs) @ drop second b1 else b1)"

definition ring_get :: "'a list \<Rightarrow> nat \<Rightarrow> nat \<Rightarrow> 'a list" where
  "ring_get b s m =
     (let first = min m (length b - s) in take first (drop s b) @ take (m - first) b)"

section \<open>Rounding up to a power of two\<close>

lemma smear_step:
  fixes v w :: uint64
  assumes "\<And>n. bit v n \<longleftrightarrow> (\<exists>m. n \<le> m \<and> m < n + k \<and> bit w m)"
  shows "bit (v OR drop_bit k v) n \<longleftrightarrow> (\<exists>m. n \<le> m \<and> m < n + 2 * k \<and> bit w m)"
proof -
  have "bit (v OR drop_bit k v) n \<longleftrightarrow> bit v n \<or> bit v (k + n)"
    by (simp add: bit_or_iff bit_drop_bit_eq)
  also have "\<dots> \<longleftrightarrow> (\<exists>m. n \<le> m \<and> m < n + k \<and> bit w m) \<or> (\<exists>m. k + n \<le> m \<and> m < k + n + k \<and> bit w m)"
    by (simp only: assms)
  also have "\<dots> \<longleftrightarrow> (\<exists>m. n \<le> m \<and> m < n + 2 * k \<and> bit w m)"
  proof
    assume "(\<exists>m. n \<le> m \<and> m < n + k \<and> bit w m) \<or> (\<exists>m. k + n \<le> m \<and> m < k + n + k \<and> bit w m)"
    then show "\<exists>m. n \<le> m \<and> m < n + 2 * k \<and> bit w m"
    proof (elim disjE exE)
      fix m assume "n \<le> m \<and> m < n + k \<and> bit w m"
      then have "n \<le> m \<and> m < n + 2 * k \<and> bit w m" by simp
      then show ?thesis ..
    next
      fix m assume "k + n \<le> m \<and> m < k + n + k \<and> bit w m"
      then have "n \<le> m \<and> m < n + 2 * k \<and> bit w m" by simp
      then show ?thesis ..
    qed
  next
    assume "\<exists>m. n \<le> m \<and> m < n + 2 * k \<and> bit w m"
    then obtain m where m: "n \<le> m" "m < n + 2 * k" "bit w m" by blast
    show "(\<exists>m. n \<le> m \<and> m < n + k \<and> bit w m) \<or> (\<exists>m. k + n \<le> m \<and> m < k + n + k \<and> bit w m)"
    proof (cases "m < n + k")
      case True with m show ?thesis by blast
    next
      case False
      with m have "k + n \<le> m \<and> m < k + n + k \<and> bit w m" by simp
      then show ?thesis by blast
    qed
  qed
  finally show ?thesis .
qed

lemma bit_smear:
  "bit (smear w) n \<longleftrightarrow> (\<exists>m. n \<le> m \<and> bit w m)"
proof -
  define v1 where "v1 = w OR drop_bit 1 w"
  define v2 where "v2 = v1 OR drop_bit 2 v1"
  define v3 where "v3 = v2 OR drop_bit 4 v2"
  define v4 where "v4 = v3 OR drop_bit 8 v3"
  define v5 where "v5 = v4 OR drop_bit 16 v4"
  define v6 where "v6 = v5 OR drop_bit 32 v5"
  have b0: "bit w n \<longleftrightarrow> (\<exists>m. n \<le> m \<and> m < n + 1 \<and> bit w m)" for n
    by (auto simp: less_Suc_eq_le le_antisym)
  have b1: "bit v1 n \<longleftrightarrow> (\<exists>m. n \<le> m \<and> m < n + 2 \<and> bit w m)" for n
    unfolding v1_def using smear_step [of w 1 w n, OF b0] by simp
  have b2: "bit v2 n \<longleftrightarrow> (\<exists>m. n \<le> m \<and> m < n + 4 \<and> bit w m)" for n
    unfolding v2_def using smear_step [of v1 2 w n, OF b1] by simp
  have b3: "bit v3 n \<longleftrightarrow> (\<exists>m. n \<le> m \<and> m < n + 8 \<and> bit w m)" for n
    unfolding v3_def using smear_step [of v2 4 w n, OF b2] by simp
  have b4: "bit v4 n \<longleftrightarrow> (\<exists>m. n \<le> m \<and> m < n + 16 \<and> bit w m)" for n
    unfolding v4_def using smear_step [of v3 8 w n, OF b3] by simp
  have b5: "bit v5 n \<longleftrightarrow> (\<exists>m. n \<le> m \<and> m < n + 32 \<and> bit w m)" for n
    unfolding v5_def using smear_step [of v4 16 w n, OF b4] by simp
  have b6: "bit v6 n \<longleftrightarrow> (\<exists>m. n \<le> m \<and> m < n + 64 \<and> bit w m)" for n
    unfolding v6_def using smear_step [of v5 32 w n, OF b5] by simp
  have "smear w = v6"
    by (simp add: smear_def Let_def v1_def v2_def v3_def v4_def v5_def v6_def)
  moreover have "(\<exists>m. n \<le> m \<and> m < n + 64 \<and> bit w m) \<longleftrightarrow> (\<exists>m. n \<le> m \<and> bit w m)"
  proof
    assume "\<exists>m. n \<le> m \<and> bit w m"
    then obtain m where m: "n \<le> m" "bit w m" by blast
    then have "m < 64" using bit_imp_le_length [of w m] by simp
    with m show "\<exists>m. n \<le> m \<and> m < n + 64 \<and> bit w m" by auto
  qed blast
  ultimately show ?thesis using b6 by simp
qed

lemma upper_bits_iff:
  fixes w :: uint64
  shows "(\<exists>m. n \<le> m \<and> bit w m) \<longleftrightarrow> 2 ^ n \<le> unat w"
proof -
  have "(\<exists>m. n \<le> m \<and> bit w m) \<longleftrightarrow> (\<exists>m. bit (drop_bit n w) m)"
    by (simp add: bit_drop_bit_eq) (metis le_add1 le_Suc_ex)
  also have "\<dots> \<longleftrightarrow> drop_bit n w \<noteq> 0"
  proof -
    have "m < 64" if "bit (drop_bit n w) m" for m
      using bit_imp_le_length [OF that] by simp
    then show ?thesis by (auto simp: bit_eq_iff)
  qed
  also have "\<dots> \<longleftrightarrow> unat (drop_bit n w) \<noteq> 0"
    by (simp add: unat_eq_0)
  also have "\<dots> \<longleftrightarrow> 2 ^ n \<le> unat w"
  proof -
    have "unat (drop_bit n w) = unat w div 2 ^ n"
      by (simp only: unat_drop_bit_eq) (simp add: drop_bit_eq_div)
    then show ?thesis by (simp add: div_eq_0_iff not_less)
  qed
  finally show ?thesis .
qed

lemma nextPowerOfTwo_smear: "v \<noteq> 0 \<Longrightarrow> nextPowerOfTwo v = smear (v - 1) + 1"
  by (simp add: nextPowerOfTwo_def smear_def Let_def)

lemma nextPowerOfTwo_exp:
  assumes "v \<noteq> 0" and "unat v \<le> 2 ^ 63"
  shows "\<exists>k\<le>63. nextPowerOfTwo v = 2 ^ k \<and> unat v \<le> 2 ^ k \<and> (\<forall>j. unat v \<le> 2 ^ j \<longrightarrow> k \<le> j)"
proof -
  define w where "w = v - 1"
  define L where "L = (LEAST L. unat w < 2 ^ L)"
  from assms have uv: "unat v = Suc (unat w)"
    unfolding w_def by (simp add: unat_minus_one unat_gt_0)
  with assms have "unat w < 2 ^ 63" by simp
  then have L63: "L \<le> 63" unfolding L_def by (rule Least_le)
  have wL: "unat w < 2 ^ L"
    unfolding L_def using \<open>unat w < 2 ^ 63\<close> by (rule LeastI)
  have Lmin: "L \<le> j" if "unat w < 2 ^ j" for j
    unfolding L_def using that by (rule Least_le)
  have iff: "2 ^ n \<le> unat w \<longleftrightarrow> n < L" for n
  proof
    assume "2 ^ n \<le> unat w"
    then have "(2::nat) ^ n < 2 ^ L" using wL by (rule le_less_trans)
    then show "n < L" by simp
  next
    assume "n < L"
    show "2 ^ n \<le> unat w"
    proof (rule ccontr)
      assume "\<not> 2 ^ n \<le> unat w"
      then have "L \<le> n" using Lmin [of n] by simp
      with \<open>n < L\<close> show False by simp
    qed
  qed
  have "smear w = mask L"
    by (rule bit_word_eqI) (use L63 in \<open>simp add: bit_smear upper_bits_iff iff bit_mask_iff\<close>)
  then have "nextPowerOfTwo v = 2 ^ L"
    using assms(1) by (simp add: nextPowerOfTwo_smear w_def [symmetric] inc_mask_eq_exp)
  moreover have "unat v \<le> 2 ^ L" using uv wL by simp
  moreover have "L \<le> j" if "unat v \<le> 2 ^ j" for j
    using that uv Lmin [of j] by simp
  ultimately show ?thesis using L63 by blast
qed

section \<open>Stores and loads in two segments\<close>

lemma ring_index:
  "s < N \<Longrightarrow> i < N \<Longrightarrow> (s + i) mod N = (if s + i < N then s + i else s + i - (N::nat))"
  by (simp add: mod_if)

lemma nth_append3:
  "length A = a \<Longrightarrow> length B = d \<Longrightarrow>
   (A @ B @ C) ! j = (if j < a then A ! j else if j < a + d then B ! (j - a) else C ! (j - a - d))"
  by (auto simp: nth_append)

lemma ring_put_fits:
  assumes "s + length xs \<le> length b"
  shows "ring_put b s xs = take s b @ xs @ drop (s + length xs) b"
proof -
  from assms have "min (length xs) (length b - s) = length xs" by simp
  then show ?thesis by (simp add: ring_put_def Let_def)
qed

lemma ring_put_wraps:
  assumes "s + f = length b" "length xs = f + r" "0 < r" "r \<le> s"
  shows "ring_put b s xs = drop f xs @ drop r (take s b) @ take f xs"
proof -
  from assms have "min (length xs) (length b - s) = f" by simp
  moreover from assms have "length xs - f = r" by simp
  ultimately have "ring_put b s xs = take r (drop f xs) @ drop r (take s b @ take f xs @ drop (s + f) b)"
    using assms by (simp add: ring_put_def Let_def del: drop_append)
  then show ?thesis using assms by simp
qed

lemma length_ring_put:
  "s < length b \<Longrightarrow> length xs \<le> length b \<Longrightarrow> length (ring_put b s xs) = length b"
  by (auto simp: ring_put_def Let_def min_def)

lemma ring_put_new:
  assumes "s < length b" "length xs \<le> length b" "i < length xs"
  shows "ring_put b s xs ! ((s + i) mod length b) = xs ! i"
proof (cases "s + length xs \<le> length b")
  case True
  moreover have "(s + i) mod length b = s + i"
    using assms True by simp
  ultimately show ?thesis using assms by (simp add: ring_put_fits nth_append)
next
  case False
  define f where "f = length b - s"
  define r where "r = length xs - f"
  have r: "s + f = length b" "length xs = f + r" "0 < r" "r \<le> s"
    using False assms by (simp_all add: f_def r_def)
  note put = ring_put_wraps [OF r]
  have len: "length (drop f xs) = r" "length (drop r (take s b)) = s - r"
    using r assms by simp_all
  show ?thesis
  proof (cases "i < f")
    case True
    then have "(s + i) mod length b = s + i" using r by simp
    moreover have "\<not> s + i < r" "\<not> s + i < r + (s - r)" "s + i - r - (s - r) = i"
      using r by simp_all
    ultimately show ?thesis using True
      by (simp add: put nth_append3 [OF len])
  next
    case False
    then have "(s + i) mod length b = i - f"
      using r assms by (simp add: ring_index)
    moreover have "i - f < r" using False r assms by simp
    moreover have "f + (i - f) = i" using False by simp
    ultimately show ?thesis using r
      by (simp add: put nth_append3 [OF len])
  qed
qed

lemma ring_put_old:
  assumes "s < length b" "length xs \<le> length b" "length xs \<le> i" "i < length b"
  shows "ring_put b s xs ! ((s + i) mod length b) = b ! ((s + i) mod length b)"
proof (cases "s + length xs \<le> length b")
  case True
  note put = ring_put_fits [OF True]
  have len: "length (take s b) = s" "length xs = length xs" using assms by simp_all
  show ?thesis
  proof (cases "s + i < length b")
    case True
    then have "(s + i) mod length b = s + i" by simp
    moreover have "\<not> s + i < s + length xs" using assms by simp
    moreover have "s + length xs + (s + i - s - length xs) = s + i" using assms by simp
    ultimately show ?thesis using \<open>s + length xs \<le> length b\<close>
      by (simp add: put nth_append3 [OF len])
  next
    case False
    then have "(s + i) mod length b = s + i - length b" using assms by (simp add: ring_index)
    moreover have "s + i - length b < s" using assms False by simp
    ultimately show ?thesis by (simp add: put nth_append3 [OF len])
  qed
next
  case False
  define f where "f = length b - s"
  define r where "r = length xs - f"
  have r: "s + f = length b" "length xs = f + r" "0 < r" "r \<le> s"
    using False assms by (simp_all add: f_def r_def)
  note put = ring_put_wraps [OF r]
  have len: "length (drop f xs) = r" "length (drop r (take s b)) = s - r"
    using r assms by simp_all
  have "\<not> s + i < length b" using assms r by simp
  then have idx: "(s + i) mod length b = s + i - length b" using assms by (simp add: ring_index)
  define j where "j = s + i - length b"
  have j: "\<not> j < r" "j < r + (s - r)" "r + (j - r) = j" "j < s"
    using assms r by (simp_all add: j_def)
  have "drop r (take s b) ! (j - r) = b ! j"
    using j r assms by (simp add: nth_append)
  then show ?thesis unfolding idx j_def [symmetric]
    using j by (simp add: put nth_append3 [OF len])
qed

lemma ring_get_map:
  assumes "s < length b" "m \<le> length b"
  shows "ring_get b s m = map (\<lambda>i. b ! ((s + i) mod length b)) [0..<m]"
proof (rule nth_equalityI)
  show "length (ring_get b s m) = length (map (\<lambda>i. b ! ((s + i) mod length b)) [0..<m])"
    using assms by (auto simp: ring_get_def Let_def min_def)
next
  fix i assume "i < length (ring_get b s m)"
  then have i: "i < m" using assms by (auto simp: ring_get_def Let_def min_def split: if_splits)
  define f where "f = min m (length b - s)"
  have get: "ring_get b s m = take f (drop s b) @ take (m - f) b"
    by (simp add: ring_get_def f_def Let_def)
  have len: "length (take f (drop s b)) = f" using assms by (simp add: f_def)
  show "ring_get b s m ! i = map (\<lambda>i. b ! ((s + i) mod length b)) [0..<m] ! i"
  proof (cases "s + i < length b")
    case True
    then have "i < f" using i by (simp add: f_def)
    then show ?thesis using True i len by (simp add: get nth_append)
  next
    case False
    then have idx: "(s + i) mod length b = s + i - length b" using assms i by (simp add: ring_index)
    have f: "f = length b - s" using False i by (simp add: f_def)
    then have "\<not> i < f" "i - f < m - f" "i - f = s + i - length b"
      using False i assms by simp_all
    then show ?thesis using i len by (simp add: get nth_append idx)
  qed
qed

section \<open>Word arithmetic of a well-shaped buffer\<close>

lemma sint_small:
  fixes x :: uint64
  assumes "unat x < 2 ^ 63"
  shows "sint x = int (unat x)"
proof -
  have "int (unat x) < int (2 ^ 63)" using assms by (simp only: of_nat_less_iff)
  then have "uint x < 2 ^ 63" by (simp only: uint_nat of_nat_power of_nat_numeral)
  moreover have "- (2 ^ 63) \<le> uint x"
  proof -
    have "- (2 ^ 63) \<le> (0::int)" by simp
    also have "0 \<le> uint x" by simp
    finally show ?thesis .
  qed
  ultimately have "signed_take_bit 63 (uint x) = uint x"
    by (rule signed_take_bit_int_eq_self [rotated])
  moreover have "LENGTH(64) - Suc 0 = 63" by simp
  then have "sint x = signed_take_bit 63 (uint x)" by (simp only: sint_uint)
  ultimately show ?thesis by (simp only: uint_nat)
qed

lemma unat_word_of_nat_small:
  "N < 2 ^ 64 \<Longrightarrow> unat (word_of_nat N :: uint64) = N"
  by (simp add: unat_of_nat)

lemma unat_and_exp_mask:
  fixes x :: uint64
  shows "unat (x AND (2 ^ k - 1)) = unat x mod 2 ^ k"
proof -
  have "x AND (2 ^ k - 1) = take_bit k x"
    by (simp only: take_bit_eq_mask mask_eq_decr_exp)
  moreover have "unat (take_bit k x) = take_bit k (unat x)"
    by (rule unsigned_take_bit_eq)
  moreover have "take_bit k (unat x) = unat x mod 2 ^ k"
    by (rule take_bit_eq_mod)
  ultimately show ?thesis by (simp only:)
qed

lemma ring_inv_shape:
  assumes "ring_inv c"
  obtains k where "k \<le> 62" "length (buf c) = 2 ^ k" "mask_field c = 2 ^ k - 1"
  using assms unfolding ring_inv_def by blast

lemma ring_inv_used: "ring_inv c \<Longrightarrow> used c \<le> length (buf c)"
  by (simp add: ring_inv_def)

lemma ring_inv_len:
  assumes "ring_inv c"
  shows "0 < length (buf c)" and "length (buf c) \<le> 2 ^ 62" and "length (buf c) dvd 2 ^ 64"
proof -
  from assms obtain k where k: "k \<le> 62" "length (buf c) = 2 ^ k" by (rule ring_inv_shape)
  show "0 < length (buf c)" using k by simp
  show "length (buf c) \<le> 2 ^ 62" unfolding k(2) using k(1) by (rule power_increasing) simp
  have "k \<le> 64" using k by simp
  then show "length (buf c) dvd 2 ^ 64" unfolding k(2) by (rule le_imp_power_dvd)
qed

lemma ring_inv_unat_len:
  assumes "ring_inv c"
  shows "unat (word_of_nat (length (buf c)) :: uint64) = length (buf c)"
proof -
  have "length (buf c) < 2 ^ 64" using ring_inv_len(2) [OF assms] by simp
  then show ?thesis by (rule unat_word_of_nat_small)
qed

lemma ring_inv_offset:
  assumes "ring_inv c"
  shows "unat (x AND mask_field c) = unat x mod length (buf c)"
proof -
  from assms obtain k where k: "length (buf c) = 2 ^ k" "mask_field c = 2 ^ k - 1"
    by (rule ring_inv_shape)
  show ?thesis unfolding k by (rule unat_and_exp_mask)
qed

lemma ring_inv_sint_len_minus:
  fixes x :: uint64
  assumes "ring_inv c" and "unat x \<le> length (buf c)"
  shows "sint (word_of_nat (length (buf c)) - x) = int (length (buf c)) - int (unat x)"
proof -
  let ?N = "length (buf c)"
  have "x \<le> word_of_nat ?N"
    using assms by (simp add: word_le_nat_alt ring_inv_unat_len)
  then have u: "unat (word_of_nat ?N - x) = ?N - unat x"
    using assms by (simp add: unat_sub ring_inv_unat_len)
  have "?N - unat x < 2 ^ 63" using ring_inv_len(2) [OF assms(1)] by simp
  then have "sint (word_of_nat ?N - x) = int (unat (word_of_nat ?N - x))"
    unfolding u [symmetric] by (rule sint_small)
  then show ?thesis using u assms by (simp add: of_nat_diff)
qed

lemma ring_inv_sint_used:
  assumes "ring_inv c"
  shows "sint (tail c - head c) = int (used c)"
proof -
  have "used c < 2 ^ 63"
    using ring_inv_used [OF assms] ring_inv_len(2) [OF assms] by simp
  then show ?thesis unfolding used_def by (rule sint_small)
qed

lemma ring_inv_uint_advance:
  assumes "ring_inv c" and "unat x mod length (buf c) + f \<le> length (buf c)"
  shows "uint ((x AND mask_field c) + word_of_nat f) = int (unat x mod length (buf c) + f)"
proof -
  let ?N = "length (buf c)"
  have N: "?N \<le> 2 ^ 62" by (rule ring_inv_len(2) [OF assms(1)])
  then have f: "f < 2 ^ 64" using assms(2) by simp
  then have uf: "unat (word_of_nat f :: uint64) = f" by (rule unat_word_of_nat_small)
  have "unat (x AND mask_field c) + unat (word_of_nat f :: uint64) < 2 ^ LENGTH(64)"
    using assms(2) N by (simp add: ring_inv_offset [OF assms(1)] uf)
  then have "unat ((x AND mask_field c) + word_of_nat f) = unat (x AND mask_field c) + unat (word_of_nat f :: uint64)"
    by (simp only: unat_add_lem)
  then show ?thesis by (simp add: uint_nat ring_inv_offset [OF assms(1)] uf)
qed

section \<open>One pass of the write loop\<close>

lemma copy_seg_nat:
  assumes "dlo + k \<le> length dst" and "slo + k \<le> length src"
  shows "copy_seg dst (int dlo) (int (dlo + k)) src (int slo) (int slo + int k) =
         Some (take dlo dst @ take k (drop slo src) @ drop (dlo + k) dst)"
  using assms by (simp add: copy_seg_def)

lemma write_chunk_ok:
  assumes inv: "ring_inv c" and m: "m < length p" and room: "used c < length (buf c)"
  defines "k \<equiv> min (length p - m) (length (buf c) - used c)"
  shows "write_chunk c p (int m) (int (length (buf c)) - int (used c)) =
         Inr (c\<lparr>buf := ring_put (buf c) (unat (tail c) mod length (buf c)) (take k (drop m p)),
                 tail := tail c + word_of_nat k\<rparr>, int (m + k))"
proof -
  let ?N = "length (buf c)"
  define s where "s = unat (tail c) mod ?N"
  define f where "f = min k (?N - s)"
  define xs where "xs = take k (drop m p)"
  have N: "0 < ?N" by (rule ring_inv_len(1) [OF inv])
  have s: "s < ?N" unfolding s_def using N by simp
  have k: "0 < k" "k \<le> length p - m" "k \<le> ?N - used c" "m + k \<le> length p" "k \<le> ?N"
    using m room by (simp_all add: k_def)
  have f: "f \<le> k" "s + f \<le> ?N" "m + f \<le> length p"
    using k s by (simp_all add: f_def)
  have toWrite: "(if int (length p) - int m > int ?N - int (used c)
                  then int ?N - int (used c) else int (length p) - int m) = int k"
    using m room by (auto simp: k_def min_def)
  have start: "uint (tail c AND mask_field c) = int s"
    by (simp add: uint_nat ring_inv_offset [OF inv] s_def)
  have endSpace: "sint (word_of_nat ?N - (tail c AND mask_field c)) = int ?N - int s"
    using ring_inv_sint_len_minus [OF inv, of "tail c AND mask_field c"] s
    by (simp add: ring_inv_offset [OF inv] s_def)
  have first: "(if int k > int ?N - int s then int ?N - int s else int k) = int f"
    using s by (auto simp: f_def min_def)
  have hi: "uint ((tail c AND mask_field c) + word_of_nat f) = int (s + f)"
    unfolding s_def using f(2) by (intro ring_inv_uint_advance [OF inv]) (simp add: s_def)
  define b1 where "b1 = take s (buf c) @ take f (drop m p) @ drop (s + f) (buf c)"
  have c1: "copy_seg (buf c) (int s) (int (s + f)) p (int m) (int m + int f) = Some b1"
    unfolding b1_def using f by (intro copy_seg_nat) simp_all
  have lb1: "length b1 = ?N" using f s by (simp add: b1_def)
  have xs: "length xs = k" using k by (simp add: xs_def)
  have fx: "min (length xs) (?N - s) = f" by (simp add: xs f_def)
  have b1': "b1 = take s (buf c) @ take f xs @ drop (s + f) (buf c)"
    using f by (simp add: b1_def xs_def min_def)
  show ?thesis
  proof (cases "f < k")
    case False
    then have "k = f" using f by simp
    then have "ring_put (buf c) s xs = b1"
      using f(2) xs by (simp add: ring_put_fits b1')
    then have "ring_put (buf c) s (take k (drop m p)) = b1"
      by (simp only: xs_def)
    then show ?thesis
      unfolding write_chunk_def Let_def toWrite start endSpace first
      using \<open>k = f\<close> c1 hi
      by (simp add: s_def [symmetric])
  next
    case True
    define r where "r = k - f"
    have r: "0 < r" "k = f + r" "r \<le> ?N" using True k by (simp_all add: r_def)
    have c2: "copy_seg b1 0 (int r) p (int (m + f)) (int (m + f) + int r) =
              Some (take 0 b1 @ take r (drop (m + f) p) @ drop (0 + r) b1)"
      using copy_seg_nat [of 0 r b1 "m + f" p] r k lb1 by simp
    have sf: "s + f = ?N" using True s by (simp add: f_def min_def split: if_splits)
    have rs: "r \<le> s" using r k sf by simp
    have "drop f xs = take r (drop (m + f) p)"
      using r by (simp add: xs_def drop_take add.commute)
    moreover have "drop r b1 = drop r (take s (buf c)) @ take f xs"
      using rs sf s by (simp add: b1')
    ultimately have "ring_put (buf c) s xs = take r (drop (m + f) p) @ drop r b1"
      using ring_put_wraps [OF sf _ r(1) rs, of xs] xs r by simp
    then have put: "ring_put (buf c) s (take k (drop m p)) = take r (drop (m + f) p) @ drop r b1"
      by (simp only: xs_def)
    have ik: "int k - int f = int r" "int m + int k = int m + int f + int r"
      using r by simp_all
    show ?thesis
      unfolding write_chunk_def Let_def toWrite start endSpace first
      using True c1 c2 hi put
      by (simp add: s_def [symmetric] ik)
  qed
qed

section \<open>The buffered bytes after a store\<close>

lemma length_contents [simp]: "length (contents c) = used c"
  by (simp add: contents_def)

lemma ring_inv_index:
  assumes "ring_inv c" and "i \<le> length (buf c)"
  shows "unat ((x + word_of_nat i) AND mask_field c) = (unat x + i) mod length (buf c)"
proof -
  let ?N = "length (buf c)"
  have "i < 2 ^ 64" using assms(2) ring_inv_len(2) [OF assms(1)] by simp
  then have "unat (word_of_nat i :: uint64) = i" by (rule unat_word_of_nat_small)
  then have "unat (x + word_of_nat i) = (unat x + i) mod 2 ^ 64"
    by (simp add: unat_word_ariths)
  moreover have "(unat x + i) mod 2 ^ 64 mod ?N = (unat x + i) mod ?N"
    by (rule mod_mod_cancel) (rule ring_inv_len(3) [OF assms(1)])
  ultimately show ?thesis by (simp add: ring_inv_offset [OF assms(1)])
qed

lemma contents_nth:
  assumes "ring_inv c" and "i < used c"
  shows "contents c ! i = buf c ! ((unat (head c) + i) mod length (buf c))"
proof -
  have "i \<le> length (buf c)" using assms ring_inv_used [OF assms(1)] by simp
  then show ?thesis using assms by (simp add: contents_def ring_inv_index)
qed

lemma ring_inv_tail_offset:
  assumes "ring_inv c"
  shows "unat (tail c) mod length (buf c) = (unat (head c) + used c) mod length (buf c)"
proof -
  have "unat (head c + (tail c - head c)) = (unat (head c) + unat (tail c - head c)) mod 2 ^ LENGTH(64)"
    by (rule unat_word_ariths(1))
  then have "unat (tail c) = (unat (head c) + used c) mod 2 ^ 64"
    by (simp add: used_def)
  moreover have "(unat (head c) + used c) mod 2 ^ 64 mod length (buf c) = (unat (head c) + used c) mod length (buf c)"
    by (rule mod_mod_cancel) (rule ring_inv_len(3) [OF assms(1)])
  ultimately show ?thesis by simp
qed

lemma stored_state:
  assumes inv: "ring_inv c" and k: "used c + k \<le> length (buf c)" and xs: "length xs = k"
  defines "c' \<equiv> c\<lparr>buf := ring_put (buf c) (unat (tail c) mod length (buf c)) xs,
                    tail := tail c + word_of_nat k\<rparr>"
  shows "ring_inv c'" and "used c' = used c + k" and "contents c' = contents c @ xs"
proof -
  let ?N = "length (buf c)"
  let ?s = "unat (tail c) mod ?N"
  let ?h = "unat (head c)"
  have N: "0 < ?N" "?N \<le> 2 ^ 62" by (rule ring_inv_len [OF inv])+
  have s: "?s < ?N" using N by simp
  have kN: "k \<le> ?N" using k by simp
  have len: "length (buf c') = ?N"
    using s kN xs by (simp add: c'_def length_ring_put)
  have "k < 2 ^ 64" using kN N by simp
  then have uk: "unat (word_of_nat k :: uint64) = k" by (rule unat_word_of_nat_small)
  have "tail c' - head c' = (tail c - head c) + word_of_nat k"
    by (simp add: c'_def)
  moreover have "unat (tail c - head c) + unat (word_of_nat k :: uint64) < 2 ^ LENGTH(64)"
    using k N unfolding uk used_def [symmetric] by simp
  then have "unat ((tail c - head c) + word_of_nat k) = unat (tail c - head c) + unat (word_of_nat k :: uint64)"
    by (simp only: unat_add_lem)
  ultimately show used': "used c' = used c + k"
    by (simp add: used_def uk)
  show inv': "ring_inv c'"
    using inv k unfolding ring_inv_def used' len by (simp add: c'_def)
  have hd: "head c' = head c" by (simp add: c'_def)
  show "contents c' = contents c @ xs"
  proof (rule nth_equalityI)
    show "length (contents c') = length (contents c @ xs)"
      by (simp add: used' xs)
  next
    fix i assume "i < length (contents c')"
    then have i: "i < used c + k" by (simp add: used')
    then have "i < used c'" by (simp add: used')
    then have nth: "contents c' ! i = ring_put (buf c) ?s xs ! ((?h + i) mod ?N)"
      using contents_nth [OF inv', of i] by (simp add: hd len) (simp add: c'_def)
    show "contents c' ! i = (contents c @ xs) ! i"
    proof (cases "i < used c")
      case True
      define j where "j = ?N - used c + i"
      have j: "length xs \<le> j" "j < ?N" using True k xs by (simp_all add: j_def)
      have "(?s + j) mod ?N = ((?h + used c) + j) mod ?N"
        unfolding ring_inv_tail_offset [OF inv] by (rule mod_add_left_eq)
      also have "(?h + used c) + j = (?h + i) + ?N" using True k by (simp add: j_def)
      also have "((?h + i) + ?N) mod ?N = (?h + i) mod ?N" by simp
      finally have idx: "(?h + i) mod ?N = (?s + j) mod ?N" by simp
      have "ring_put (buf c) ?s xs ! ((?s + j) mod ?N) = buf c ! ((?s + j) mod ?N)"
        using s kN xs j by (intro ring_put_old) simp_all
      then show ?thesis
        using True by (simp add: nth idx [symmetric] nth_append contents_nth [OF inv])
    next
      case False
      define j where "j = i - used c"
      have j: "j < length xs" "i = used c + j" using False i xs by (simp_all add: j_def)
      have "(?s + j) mod ?N = ((?h + used c) + j) mod ?N"
        unfolding ring_inv_tail_offset [OF inv] by (rule mod_add_left_eq)
      then have idx: "(?h + i) mod ?N = (?s + j) mod ?N" by (simp add: j(2) add.assoc)
      have "ring_put (buf c) ?s xs ! ((?s + j) mod ?N) = xs ! j"
        using s kN xs j by (intro ring_put_new) simp_all
      then show ?thesis
        using False by (simp add: nth idx nth_append j_def)
    qed
  qed
qed

section \<open>The write loop\<close>

lemma ring_inv_free:
  assumes "ring_inv c"
  shows "sint (word_of_nat (length (buf c)) - (tail c - head c)) = int (length (buf c)) - int (used c)"
  using ring_inv_sint_len_minus [OF assms, of "tail c - head c"] ring_inv_used [OF assms]
  by (simp add: used_def)

lemma write_loop_done:
  "write_loop c p (int (length p)) = (c, Return (int (length p)) None)"
  by (simp add: write_loop.simps)

lemma write_loop_full:
  assumes "ring_inv c" and "m < length p" and "used c = length (buf c)"
  shows "write_loop c p (int m) =
         (c, if blocking c then Wait (int m) else Return (int m) (Some ErrFull))"
  using assms by (simp add: write_loop.simps [of c p "int m"] ring_inv_free)

lemma write_loop_ok:
  assumes inv: "ring_inv c" and m: "m \<le> length p"
  defines "k \<equiv> min (length p - m) (length (buf c) - used c)"
  shows "\<exists>c'. write_loop c p (int m) =
           (c', if m + k = length p then Return (int (length p)) None
                else if blocking c then Wait (int (m + k))
                else Return (int (m + k)) (Some ErrFull)) \<and>
         ring_inv c' \<and> used c' = used c + k \<and> contents c' = contents c @ take k (drop m p) \<and>
         closed c' = closed c \<and> blocking c' = blocking c \<and> head c' = head c \<and>
         length (buf c') = length (buf c) \<and> mask_field c' = mask_field c \<and> (k = 0 \<longrightarrow> c' = c)"
proof -
  let ?N = "length (buf c)"
  have u: "used c \<le> ?N" by (rule ring_inv_used [OF inv])
  consider (finished) "m = length p" | (full) "m < length p" "used c = ?N"
    | (room) "m < length p" "used c < ?N"
    using m u by linarith
  then show ?thesis
  proof cases
    case finished
    then have "k = 0" by (simp add: k_def)
    then show ?thesis using finished inv by (simp add: write_loop_done)
  next
    case full
    then have "k = 0" by (simp add: k_def)
    then show ?thesis using full inv by (simp add: write_loop_full)
  next
    case room
    define c1 where "c1 = c\<lparr>buf := ring_put (buf c) (unat (tail c) mod ?N) (take k (drop m p)),
                             tail := tail c + word_of_nat k\<rparr>"
    have k: "0 < k" "used c + k \<le> ?N" "length (take k (drop m p)) = k" "m + k \<le> length p"
      using room by (simp_all add: k_def)
    have chunk: "write_chunk c p (int m) (int ?N - int (used c)) = Inr (c1, int (m + k))"
      unfolding c1_def k_def by (rule write_chunk_ok [OF inv room])
    have free: "int ?N - int (used c) \<noteq> 0" using room by simp
    have step: "write_loop c p (int m) = write_loop c1 p (int (m + k))"
      using room(1) free chunk
      by (simp add: write_loop.simps [of c p "int m"] ring_inv_free [OF inv])
    have c1: "ring_inv c1" "used c1 = used c + k" "contents c1 = contents c @ take k (drop m p)"
      unfolding c1_def by (rule stored_state [OF inv k(2) k(3)])+
    have same: "closed c1 = closed c" "blocking c1 = blocking c" "head c1 = head c"
      "mask_field c1 = mask_field c"
      by (simp_all add: c1_def)
    have len: "length (buf c1) = ?N"
      using ring_inv_len(1) [OF inv] k by (simp add: c1_def length_ring_put)
    show ?thesis
    proof (cases "m + k = length p")
      case True
      then have "write_loop c p (int m) = (c1, Return (int (length p)) None)"
        using step by (simp add: write_loop_done)
      then show ?thesis using True c1 same len k(1) by simp
    next
      case False
      then have "m + k < length p" using k by simp
      moreover from this have "used c1 = length (buf c1)"
        using room by (simp add: c1 len k_def min_def split: if_splits)
      ultimately have "write_loop c1 p (int (m + k)) =
          (c1, if blocking c1 then Wait (int (m + k)) else Return (int (m + k)) (Some ErrFull))"
        using c1(1) by (intro write_loop_full)
      then show ?thesis using False step c1 same len k(1) by simp
    qed
  qed
qed

section \<open>Read on a well-shaped buffer\<close>

lemma contents_map:
  assumes "ring_inv c"
  shows "contents c = map (\<lambda>i. buf c ! ((unat (head c) + i) mod length (buf c))) [0..<used c]"
  by (rule nth_equalityI) (simp_all add: contents_nth [OF assms])

lemma loaded_state:
  assumes inv: "ring_inv c" and k: "k \<le> used c"
  defines "c' \<equiv> c\<lparr>head := head c + word_of_nat k\<rparr>"
  shows "ring_inv c'" and "used c' = used c - k" and "contents c' = drop k (contents c)"
proof -
  let ?N = "length (buf c)"
  have u: "used c \<le> ?N" by (rule ring_inv_used [OF inv])
  have N: "?N \<le> 2 ^ 62" by (rule ring_inv_len(2) [OF inv])
  have "k < 2 ^ 64" using k u N by simp
  then have uk: "unat (word_of_nat k :: uint64) = k" by (rule unat_word_of_nat_small)
  have "word_of_nat k \<le> tail c - head c"
    using k by (simp add: word_le_nat_alt uk used_def)
  then have "unat ((tail c - head c) - word_of_nat k) = unat (tail c - head c) - unat (word_of_nat k :: uint64)"
    by (rule unat_sub)
  moreover have "tail c' - head c' = (tail c - head c) - word_of_nat k"
    by (simp add: c'_def)
  ultimately show used': "used c' = used c - k"
    by (simp add: used_def uk)
  have "used c - k \<le> ?N" using u by simp
  then show inv': "ring_inv c'"
    using inv unfolding ring_inv_def used' by (simp add: c'_def)
  show "contents c' = drop k (contents c)"
  proof (rule nth_equalityI)
    show "length (contents c') = length (drop k (contents c))" by (simp add: used')
  next
    fix i assume "i < length (contents c')"
    then have i: "i < used c - k" by (simp add: used')
    then have ki: "k + i < used c" "k + i \<le> ?N" using u by simp_all
    have e: "head c' + word_of_nat i = head c + word_of_nat (k + i)"
      "mask_field c' = mask_field c" "buf c' = buf c"
      by (simp_all add: c'_def)
    have "contents c' ! i = buf c' ! unat ((head c' + word_of_nat i) AND mask_field c')"
      using i by (simp add: contents_def used')
    also have "\<dots> = buf c ! unat ((head c + word_of_nat (k + i)) AND mask_field c)"
      by (simp only: e)
    also have "\<dots> = buf c ! ((unat (head c) + (k + i)) mod ?N)"
      by (simp only: ring_inv_index [OF inv ki(2)])
    finally show "contents c' ! i = drop k (contents c) ! i"
      using ki by (simp add: contents_nth [OF inv])
  qed
qed

lemma Read_ok:
  fixes p :: "byte list"
  assumes inv: "ring_inv c" and pos: "0 < used c"
  defines "k \<equiv> min (length p) (used c)"
  shows "Read c p = (c\<lparr>head := head c + word_of_nat k\<rparr>,
                     take k (contents c) @ drop k p, Return (int k) None)"
proof -
  let ?N = "length (buf c)"
  define s where "s = unat (head c) mod ?N"
  define f where "f = min k (?N - s)"
  define r where "r = k - f"
  have N: "0 < ?N" by (rule ring_inv_len(1) [OF inv])
  have u: "used c \<le> ?N" by (rule ring_inv_used [OF inv])
  have s: "s < ?N" unfolding s_def using N by simp
  have k: "k \<le> length p" "k \<le> used c" "k \<le> ?N" using u by (simp_all add: k_def)
  have f: "f \<le> k" "s + f \<le> ?N" "f \<le> length p" "k = f + r"
    using k s by (simp_all add: f_def r_def)
  have avail: "sint (tail c - head c) = int (used c)" by (rule ring_inv_sint_used [OF inv])
  have toRead: "(if int (length p) > int (used c) then int (used c) else int (length p)) = int k"
    by (auto simp: k_def min_def)
  have start: "uint (head c AND mask_field c) = int s"
    by (simp add: uint_nat ring_inv_offset [OF inv] s_def)
  have endSpace: "sint (word_of_nat ?N - (head c AND mask_field c)) = int ?N - int s"
    using ring_inv_sint_len_minus [OF inv, of "head c AND mask_field c"] s
    by (simp add: ring_inv_offset [OF inv] s_def)
  have first: "(if int k > int ?N - int s then int ?N - int s else int k) = int f"
    using s by (auto simp: f_def min_def)
  have hi: "uint ((head c AND mask_field c) + word_of_nat f) = int (s + f)"
    unfolding s_def using f(2) by (intro ring_inv_uint_advance [OF inv]) (simp add: s_def)
  define p1 where "p1 = take f (drop s (buf c)) @ drop f p"
  have c1: "copy_seg p 0 (int f) (buf c) (int s) (int (s + f)) = Some p1"
    using copy_seg_nat [of 0 f p s "buf c"] f by (simp add: p1_def)
  have fs: "min f (?N - s) = f" using f by simp
  have lp1: "length p1 = length p" using f by (simp add: p1_def fs)
  have c2: "copy_seg p1 (int f) (int f + int r) (buf c) 0 (int r) =
            Some (take f (drop s (buf c)) @ take r (buf c) @ drop k p)"
    using copy_seg_nat [of f r p1 0 "buf c"] f k lp1 by (simp add: p1_def fs add.commute)
  have get: "ring_get (buf c) s k = take k (contents c)"
  proof -
    have "take k (contents c) = map (\<lambda>i. buf c ! ((unat (head c) + i) mod ?N)) [0..<k]"
      using k by (simp add: contents_map [OF inv] take_map min_def)
    moreover have "(s + i) mod ?N = (unat (head c) + i) mod ?N" for i
      unfolding s_def by (rule mod_add_left_eq)
    ultimately show ?thesis using s k by (simp add: ring_get_map)
  qed
  have get': "ring_get (buf c) s k = take f (drop s (buf c)) @ take r (buf c)"
    by (simp add: ring_get_def Let_def f_def r_def)
  have ik: "int k - int f = int r" using f by simp
  show ?thesis
  proof (cases "0 < r")
    case True
    then show ?thesis
      unfolding Read_def Let_def avail toRead start endSpace first
      using pos c1 c2 hi get get' by (simp add: ik)
  next
    case False
    then have "r = 0" "k = f" using f by simp_all
    then show ?thesis
      unfolding Read_def Let_def avail toRead start endSpace first
      using pos c1 hi get get' by (simp add: p1_def)
  qed
qed

lemma Read_empty:
  assumes "ring_inv c" and "used c = 0"
  shows "Read c p = (c, p, if closed c then Return 0 (Some ErrClosed)
                           else if blocking c then Wait 0 else Return 0 (Some ErrEmpty))"
  using assms by (simp add: Read_def ring_inv_sint_used)

section \<open>What New returns\<close>

lemma positive_int64:
  fixes capacity :: int64
  assumes "1 \<le> sint capacity"
  shows "capacity \<noteq> 0" and "sint capacity = int (unat capacity)" and "unat capacity < 2 ^ 63"
proof -
  show "capacity \<noteq> 0" using assms by auto
  have "bit capacity (LENGTH(64) - Suc 0) \<longleftrightarrow> sint capacity < 0" by (rule bit_last_iff)
  then have nb: "\<not> bit capacity 63" using assms by simp
  show small: "unat capacity < 2 ^ 63"
  proof (rule ccontr)
    assume "\<not> unat capacity < 2 ^ 63"
    then have "2 ^ 63 \<le> unat capacity" by (simp only: not_less)
    then obtain m where m: "63 \<le> m" "bit capacity m"
      using upper_bits_iff [of 63 capacity] by blast
    then have "m < 64" using bit_imp_le_length [of capacity m] by simp
    with m have "m = 63" by simp
    with m nb show False by simp
  qed
  then show "sint capacity = int (unat capacity)" by (rule sint_small)
qed

lemma New_precondition:
  "sint capacity < 1 \<Longrightarrow> New capacity = Inl ''circulis: capacity must be > 0''"
  by (simp add: New_def)

lemma uint_exp64:
  assumes "k < 64"
  shows "uint ((2::uint64) ^ k) = 2 ^ k" and "unat ((2::uint64) ^ k) = 2 ^ k"
proof -
  have "(2::uint64) ^ k \<noteq> 0" using assms by simp
  then have "(0::uint64) < 2 ^ k" by (simp add: word_gt_0)
  then show u: "uint ((2::uint64) ^ k) = 2 ^ k" by (rule uint_2p)
  have "int (unat ((2::uint64) ^ k)) = int (2 ^ k)"
    using u by (simp only: uint_nat of_nat_power of_nat_numeral)
  then show "unat ((2::uint64) ^ k) = 2 ^ k" by (simp only: of_nat_eq_iff)
qed

lemma makeslice_range:
  assumes "k \<le> 63"
  shows "uint ((2::uint64) ^ k) > max_int \<or> uint ((2::uint64) ^ k) > maxAlloc \<longleftrightarrow> 48 < k"
proof -
  have u: "uint ((2::uint64) ^ k) = 2 ^ k" using assms by (intro uint_exp64) simp
  have a: "(2::int) ^ k > 2 ^ 48 \<longleftrightarrow> 48 < k"
    by (simp only: power_strict_increasing_iff)
  have "(2::int) ^ k > 2 ^ 63 - 1 \<longrightarrow> 48 < k"
  proof
    assume "(2::int) ^ k > 2 ^ 63 - 1"
    then have "(2::int) ^ 48 < 2 ^ k" by simp
    then show "48 < k" by (simp only: power_strict_increasing_iff)
  qed
  then show ?thesis unfolding u max_int_def maxAlloc_def using a by blast
qed

lemma New_cases:
  fixes capacity :: int64
  assumes "1 \<le> sint capacity"
  obtains (made) k where "k \<le> 48" "nextPowerOfTwo capacity = 2 ^ k" "sint capacity \<le> 2 ^ k"
      "\<And>j. sint capacity \<le> 2 ^ j \<Longrightarrow> k \<le> j" "sint capacity \<le> 2 ^ 48"
      "New capacity = Inr \<lparr> buf = replicate (2 ^ k) 0, mask_field = 2 ^ k - 1,
                   head = 0, tail = 0, closed = False, blocking = False \<rparr>"
  | (toobig) k where "48 < k" "k \<le> 63" "nextPowerOfTwo capacity = 2 ^ k"
      "sint capacity \<le> 2 ^ k" "\<And>j. sint capacity \<le> 2 ^ j \<Longrightarrow> k \<le> j"
      "2 ^ 48 < sint capacity" "New capacity = Inl ''makeslice: len out of range''"
proof -
  note pos = positive_int64 [OF assms]
  from pos have "unat capacity \<le> 2 ^ 63" by simp
  with pos(1) obtain k where k: "k \<le> 63" "nextPowerOfTwo capacity = 2 ^ k"
    "unat capacity \<le> 2 ^ k" "\<And>j. unat capacity \<le> 2 ^ j \<Longrightarrow> k \<le> j"
    using nextPowerOfTwo_exp [of capacity] by blast
  have le: "sint capacity \<le> 2 ^ j \<longleftrightarrow> unat capacity \<le> 2 ^ j" for j
  proof -
    have "int (unat capacity) \<le> int (2 ^ j) \<longleftrightarrow> unat capacity \<le> 2 ^ j"
      by (rule of_nat_le_iff)
    then show ?thesis by (simp add: pos(2))
  qed
  have ck: "sint capacity \<le> 2 ^ k" using k(3) by (simp only: le)
  have kmin: "k \<le> j" if "sint capacity \<le> 2 ^ j" for j
    using that k(4) [of j] by (simp only: le)
  note range = makeslice_range [OF k(1)]
  show thesis
  proof (cases "48 < k")
    case True
    have "\<not> sint capacity \<le> 2 ^ 48"
    proof
      assume "sint capacity \<le> 2 ^ 48"
      then have "k \<le> 48" by (rule kmin)
      with True show False by simp
    qed
    then have big: "2 ^ 48 < sint capacity" by simp
    have "uint (nextPowerOfTwo capacity) > max_int \<or> uint (nextPowerOfTwo capacity) > maxAlloc"
      unfolding k(2) using True by (simp only: range)
    then have "New capacity = Inl ''makeslice: len out of range''"
      using assms by (simp add: New_def Let_def)
    then show ?thesis using True k(1,2) ck kmin big by (intro toobig)
  next
    case False
    then have k48: "k \<le> 48" by simp
    have "\<not> (uint (nextPowerOfTwo capacity) > max_int \<or> uint (nextPowerOfTwo capacity) > maxAlloc)"
      unfolding k(2) using False by (simp add: range)
    moreover have "unat ((2::uint64) ^ k) = 2 ^ k" using k48 by (intro uint_exp64) simp
    ultimately have new: "New capacity = Inr \<lparr> buf = replicate (2 ^ k) 0, mask_field = 2 ^ k - 1,
                   head = 0, tail = 0, closed = False, blocking = False \<rparr>"
      using assms by (simp add: New_def Let_def k(2))
    have "(2::int) ^ k \<le> 2 ^ 48" using k48 by (intro power_increasing) simp_all
    with ck have "sint capacity \<le> 2 ^ 48" by (rule order_trans)
    then show ?thesis using k48 k(2) ck kmin new by (intro made)
  qed
qed

lemma New_ring_inv:
  assumes "New capacity = Inr c"
  shows "ring_inv c" and "head c = 0" and "tail c = 0" and "\<not> closed c" and "\<not> blocking c"
    and "used c = 0"
proof -
  from assms have pos: "1 \<le> sint capacity"
    by (simp add: New_def split: if_splits)
  then have "ring_inv c \<and> head c = 0 \<and> tail c = 0 \<and> \<not> closed c \<and> \<not> blocking c \<and> used c = 0"
  proof (cases rule: New_cases)
    case (made k)
    with assms have "c = \<lparr> buf = replicate (2 ^ k) 0, mask_field = 2 ^ k - 1,
                   head = 0, tail = 0, closed = False, blocking = False \<rparr>" by simp
    moreover have "k \<le> 62" using made(1) by simp
    ultimately show ?thesis by (auto simp: ring_inv_def used_def)
  next
    case (toobig k)
    with assms show ?thesis by simp
  qed
  then show "ring_inv c" and "head c = 0" and "tail c = 0" and "\<not> closed c" and "\<not> blocking c"
    and "used c = 0" by simp_all
qed

section \<open>Every reachable state is well shaped\<close>

lemma Write_open:
  fixes p :: "byte list"
  assumes inv: "ring_inv c" and "\<not> closed c"
  defines "k \<equiv> min (length p) (length (buf c) - used c)"
  shows "\<exists>c'. Write c p =
           (c', if k = length p then Return (int (length p)) None
                else if blocking c then Wait (int k)
                else Return (int k) (Some ErrFull)) \<and>
         ring_inv c' \<and> used c' = used c + k \<and> contents c' = contents c @ take k p \<and>
         closed c' = closed c \<and> blocking c' = blocking c \<and> head c' = head c \<and>
         length (buf c') = length (buf c) \<and> mask_field c' = mask_field c \<and> (k = 0 \<longrightarrow> c' = c)"
proof -
  have w: "Write c p = write_loop c p (int 0)" using assms(2) by (simp add: Write_def)
  show ?thesis
    unfolding w k_def using write_loop_ok [OF inv le0, of p]
    by (simp only: add_0 diff_zero drop_0)
qed

lemma Write_closed: "closed c \<Longrightarrow> Write c p = (c, Return 0 (Some ErrClosed))"
  by (simp add: Write_def)

lemma Write_inv:
  assumes "ring_inv c" and "Write c p = (c', r)"
  shows "ring_inv c'" and "r \<noteq> Panic" and "closed c' = closed c"
    and "\<And>n. r = Wait n \<Longrightarrow> 0 \<le> n \<and> n \<le> int (length p)"
proof -
  have "ring_inv c' \<and> r \<noteq> Panic \<and> closed c' = closed c \<and>
        (\<forall>n. r = Wait n \<longrightarrow> 0 \<le> n \<and> n \<le> int (length p))"
  proof (cases "closed c")
    case True
    then show ?thesis using assms by (auto simp: Write_closed)
  next
    case False
    from Write_open [OF assms(1) False, of p] assms(2) show ?thesis
      by (auto split: if_splits)
  qed
  then show "ring_inv c'" and "r \<noteq> Panic" and "closed c' = closed c"
    and "\<And>n. r = Wait n \<Longrightarrow> 0 \<le> n \<and> n \<le> int (length p)" by simp_all
qed

lemma write_resume_inv:
  assumes "ring_inv c" and "0 \<le> n" and "n \<le> int (length p)" and "write_resume c p n = (c', r)"
  shows "ring_inv c'" and "r \<noteq> Panic" and "closed c' = closed c"
    and "\<And>n'. r = Wait n' \<Longrightarrow> 0 \<le> n' \<and> n' \<le> int (length p)"
proof -
  define m where "m = nat n"
  have m: "n = int m" "m \<le> length p" using assms(2,3) by (simp_all add: m_def)
  have "ring_inv c' \<and> r \<noteq> Panic \<and> closed c' = closed c \<and>
        (\<forall>n'. r = Wait n' \<longrightarrow> 0 \<le> n' \<and> n' \<le> int (length p))"
  proof (cases "closed c")
    case True
    then show ?thesis using assms by (auto simp: write_resume_def)
  next
    case False
    from write_loop_ok [OF assms(1) m(2)] assms(4) False m(2) show ?thesis
      unfolding write_resume_def m(1) by (auto split: if_splits)
  qed
  then show "ring_inv c'" and "r \<noteq> Panic" and "closed c' = closed c"
    and "\<And>n'. r = Wait n' \<Longrightarrow> 0 \<le> n' \<and> n' \<le> int (length p)" by simp_all
qed

lemma Read_inv:
  assumes "ring_inv c" and "Read c p = (c', p', r)"
  shows "ring_inv c'" and "r \<noteq> Panic" and "closed c' = closed c"
proof -
  have "ring_inv c' \<and> r \<noteq> Panic \<and> closed c' = closed c"
  proof (cases "used c = 0")
    case True
    then show ?thesis using assms by (auto simp: Read_empty split: if_splits)
  next
    case False
    then have pos: "0 < used c" by simp
    have "min (length p) (used c) \<le> used c" by simp
    from loaded_state(1) [OF assms(1) this] Read_ok [OF assms(1) pos, of p] assms(2)
    show ?thesis by auto
  qed
  then show "ring_inv c'" and "r \<noteq> Panic" and "closed c' = closed c" by simp_all
qed

lemma SetBlocking_inv: "ring_inv c \<Longrightarrow> ring_inv (SetBlocking c b)"
  by (simp add: ring_inv_def SetBlocking_def used_def)

lemma Close_inv: "ring_inv c \<Longrightarrow> ring_inv (Close c)"
  by (simp add: ring_inv_def Close_def used_def)

lemma park_write_ok:
  "(\<And>n. r = Wait n \<Longrightarrow> 0 \<le> n \<and> n \<le> int (length p)) \<Longrightarrow> list_all waiter_ok (park_write p r)"
  by (cases r) simp_all

lemma park_read_ok: "list_all waiter_ok (park_read p r)"
  by (cases r) simp_all

lemma list_all_take_drop:
  assumes "list_all P ws"
  shows "list_all P (take i ws)" and "list_all P (drop i ws)"
  using assms by (auto simp: list_all_iff dest: in_set_takeD in_set_dropD)

lemma step_ok:
  assumes "system_ok s"
  shows "system_ok (step s e)"
proof -
  obtain c ws bad where s: "s = (c, ws, bad)" by (cases s)
  with assms have inv: "ring_inv c" and ws: "list_all waiter_ok ws" and bad: "\<not> bad" by simp_all
  show ?thesis
  proof (cases e)
    case (DoWrite p)
    obtain c' r where w: "Write c p = (c', r)" by (cases "Write c p")
    note Write_inv [OF inv w]
    then show ?thesis using ws bad by (simp add: s DoWrite w park_write_ok)
  next
    case (DoRead p)
    obtain c' p' r where r: "Read c p = (c', p', r)" by (cases "Read c p")
    note Read_inv [OF inv r]
    then show ?thesis using ws bad by (simp add: s DoRead r park_read_ok)
  next
    case (DoSetBlocking b)
    then show ?thesis using inv ws bad by (simp add: s SetBlocking_inv)
  next
    case DoClose
    then show ?thesis using inv ws bad by (simp add: s Close_inv)
  next
    case (Wake i)
    show ?thesis
    proof (cases "i < length ws")
      case False
      then show ?thesis using inv ws bad by (simp add: s Wake)
    next
      case True
      then have wi: "waiter_ok (ws ! i)" using ws by (simp add: list_all_length)
      show ?thesis
      proof (cases "ws ! i")
        case (WaitingWrite p n)
        obtain c' r where w: "write_resume c p n = (c', r)" by (cases "write_resume c p n")
        from wi WaitingWrite have n: "0 \<le> n" "n \<le> int (length p)" by simp_all
        note write_resume_inv [OF inv n w]
        then show ?thesis using ws bad True
          by (simp add: s Wake WaitingWrite w list_all_take_drop park_write_ok)
      next
        case (WaitingRead p)
        obtain c' p' r where r: "Read c p = (c', p', r)" by (cases "Read c p")
        note Read_inv [OF inv r]
        then show ?thesis using ws bad True
          by (simp add: s Wake WaitingRead r list_all_take_drop park_read_ok)
      qed
    qed
  qed
qed

lemma foldl_step_ok: "system_ok s \<Longrightarrow> system_ok (foldl step s es)"
  by (induction es arbitrary: s) (simp_all add: step_ok)

lemma run_ok:
  assumes "New capacity = Inr c0"
  shows "system_ok (run c0 es)"
  unfolding run_def using New_ring_inv(1) [OF assms] by (intro foldl_step_ok) simp

lemma run_ring_inv:
  assumes "New capacity = Inr c0" and "run c0 es = (c, ws, bad)"
  shows "ring_inv c" and "list_all waiter_ok ws" and "\<not> bad"
  using run_ok [OF assms(1), of es] assms(2) by simp_all

section \<open>What no event changes\<close>

lemma Write_len:
  assumes "ring_inv c" and "Write c p = (c', r)"
  shows "length (buf c') = length (buf c)"
proof (cases "closed c")
  case True
  then show ?thesis using assms by (auto simp: Write_closed)
next
  case False
  from Write_open [OF assms(1) False, of p] assms(2) show ?thesis by auto
qed

lemma write_resume_len:
  assumes "ring_inv c" and "0 \<le> n" and "n \<le> int (length p)" and "write_resume c p n = (c', r)"
  shows "length (buf c') = length (buf c)"
proof (cases "closed c")
  case True
  then show ?thesis using assms by (auto simp: write_resume_def)
next
  case False
  define m where "m = nat n"
  have m: "n = int m" "m \<le> length p" using assms(2,3) by (simp_all add: m_def)
  from write_loop_ok [OF assms(1) m(2)] assms(4) False show ?thesis
    unfolding write_resume_def m(1) by auto
qed

lemma Read_len:
  assumes "ring_inv c" and "Read c p = (c', p', r)"
  shows "length (buf c') = length (buf c)"
proof (cases "used c = 0")
  case True
  then show ?thesis using assms by (auto simp: Read_empty)
next
  case False
  then have "0 < used c" by simp
  from Read_ok [OF assms(1) this, of p] assms(2) show ?thesis by auto
qed

lemma step_keeps:
  assumes "system_ok s"
  shows "length (buf (fst (step s e))) = length (buf (fst s))"
    and "closed (fst s) \<Longrightarrow> closed (fst (step s e))"
    and "e = DoClose \<Longrightarrow> closed (fst (step s e))"
proof -
  obtain c ws bad where s: "s = (c, ws, bad)" by (cases s)
  with assms have inv: "ring_inv c" and ws: "list_all waiter_ok ws" by simp_all
  have "length (buf (fst (step s e))) = length (buf c) \<and>
        (closed c \<longrightarrow> closed (fst (step s e))) \<and> (e = DoClose \<longrightarrow> closed (fst (step s e)))"
  proof (cases e)
    case (DoWrite p)
    obtain c' r where w: "Write c p = (c', r)" by (cases "Write c p")
    show ?thesis using Write_len [OF inv w] Write_inv(3) [OF inv w] by (simp add: s DoWrite w)
  next
    case (DoRead p)
    obtain c' p' r where r: "Read c p = (c', p', r)" by (cases "Read c p")
    show ?thesis using Read_len [OF inv r] Read_inv(3) [OF inv r] by (simp add: s DoRead r)
  next
    case (DoSetBlocking b)
    then show ?thesis by (simp add: s SetBlocking_def)
  next
    case DoClose
    then show ?thesis by (simp add: s Close_def)
  next
    case (Wake i)
    show ?thesis
    proof (cases "i < length ws")
      case False
      then show ?thesis by (simp add: s Wake)
    next
      case True
      then have wi: "waiter_ok (ws ! i)" using ws by (simp add: list_all_length)
      show ?thesis
      proof (cases "ws ! i")
        case (WaitingWrite p n)
        obtain c' r where w: "write_resume c p n = (c', r)" by (cases "write_resume c p n")
        from wi WaitingWrite have n: "0 \<le> n" "n \<le> int (length p)" by simp_all
        show ?thesis using write_resume_len [OF inv n w] write_resume_inv(3) [OF inv n w] True
          by (simp add: s Wake WaitingWrite w)
      next
        case (WaitingRead p)
        obtain c' p' r where r: "Read c p = (c', p', r)" by (cases "Read c p")
        show ?thesis using Read_len [OF inv r] Read_inv(3) [OF inv r] True
          by (simp add: s Wake WaitingRead r)
      qed
    qed
  qed
  then show "length (buf (fst (step s e))) = length (buf (fst s))"
    and "closed (fst s) \<Longrightarrow> closed (fst (step s e))"
    and "e = DoClose \<Longrightarrow> closed (fst (step s e))" by (simp_all add: s)
qed

lemma foldl_step_len:
  "system_ok s \<Longrightarrow> length (buf (fst (foldl step s es))) = length (buf (fst s))"
proof (induction es arbitrary: s)
  case Nil
  show ?case by simp
next
  case (Cons e es)
  show ?case
    using Cons.IH [OF step_ok [OF Cons.prems] ] step_keeps(1) [OF Cons.prems] by simp
qed

lemma foldl_step_closed:
  "system_ok s \<Longrightarrow> closed (fst s) \<or> DoClose \<in> set es \<Longrightarrow> closed (fst (foldl step s es))"
proof (induction es arbitrary: s)
  case Nil
  then show ?case by simp
next
  case (Cons e es)
  have "closed (fst (step s e)) \<or> DoClose \<in> set es"
    using Cons.prems(2) step_keeps(2,3) [OF Cons.prems(1), of e] by auto
  then show ?case using Cons.IH [OF step_ok [OF Cons.prems(1)] ] by simp
qed

lemma run_keeps:
  assumes "New capacity = Inr c0" and "run c0 es = (c, ws, bad)"
  shows "length (buf c) = length (buf c0)" and "DoClose \<in> set es \<Longrightarrow> closed c"
proof -
  have ok: "system_ok (c0, [], False)" using New_ring_inv(1) [OF assms(1)] by simp
  show "length (buf c) = length (buf c0)"
    using foldl_step_len [OF ok, of es] assms(2) by (simp add: run_def)
  show "DoClose \<in> set es \<Longrightarrow> closed c"
    using foldl_step_closed [OF ok, of es] assms(2) by (simp add: run_def)
qed

section \<open>Sequences of calls by one goroutine\<close>

lemma write_all_fits:
  assumes "ring_inv c" and "\<not> closed c" and "used c + length (concat ps) \<le> length (buf c)"
  shows "\<exists>c'. write_all c ps = (c', map (\<lambda>p. Return (int (length p)) None) ps) \<and>
           ring_inv c' \<and> \<not> closed c' \<and> blocking c' = blocking c \<and>
           used c' = used c + length (concat ps) \<and> contents c' = contents c @ concat ps"
  using assms
proof (induction ps arbitrary: c)
  case Nil
  then show ?case by simp
next
  case (Cons p ps)
  have k: "min (length p) (length (buf c) - used c) = length p" using Cons.prems(3) by simp
  from Write_open [OF Cons.prems(1,2), of p] obtain c1 where
    c1: "Write c p = (c1, Return (int (length p)) None)" "ring_inv c1" "used c1 = used c + length p"
      "contents c1 = contents c @ p" "\<not> closed c1" "blocking c1 = blocking c"
      "length (buf c1) = length (buf c)"
    unfolding k using Cons.prems(2) by auto
  have "used c1 + length (concat ps) \<le> length (buf c1)" using Cons.prems(3) c1 by simp
  from Cons.IH [OF c1(2) c1(5) this] obtain c' where
    "write_all c1 ps = (c', map (\<lambda>p. Return (int (length p)) None) ps)" "ring_inv c'"
    "\<not> closed c'" "blocking c' = blocking c1" "used c' = used c1 + length (concat ps)"
    "contents c' = contents c1 @ concat ps" by blast
  then show ?case using c1 by simp
qed

lemma write_read_rounds_ok:
  assumes "ring_inv c" and "\<not> closed c" and "\<not> blocking c" and "used c = 0"
    and "\<forall>(p, q)\<in>set rounds. length p \<le> length (buf c) \<and> length p \<le> length q"
  shows "write_read_rounds c rounds =
         map (\<lambda>(p, q). (Return (int (length p)) None, p @ drop (length p) q,
                        if p = [] then Return 0 (Some ErrEmpty)
                        else Return (int (length p)) None)) rounds"
  using assms
proof (induction rounds arbitrary: c)
  case Nil
  then show ?case by simp
next
  case (Cons pq rounds)
  obtain p q where pq: "pq = (p, q)" by (cases pq)
  have len: "length p \<le> length (buf c)" "length p \<le> length q"
    using Cons.prems(5) by (simp_all add: pq)
  have k: "min (length p) (length (buf c) - used c) = length p"
    using len Cons.prems(4) by simp
  from Write_open [OF Cons.prems(1,2), of p] obtain c1 where
    c1: "Write c p = (c1, Return (int (length p)) None)" "ring_inv c1" "used c1 = length p"
      "contents c1 = contents c @ p" "\<not> closed c1" "\<not> blocking c1"
      "length (buf c1) = length (buf c)"
    unfolding k using Cons.prems(2,3,4) by auto
  have "contents c = []" using Cons.prems(4) by (simp add: contents_def)
  then have cont: "contents c1 = p" using c1 by simp
  have "\<exists>c2. Read c1 q = (c2, p @ drop (length p) q,
                if p = [] then Return 0 (Some ErrEmpty) else Return (int (length p)) None) \<and>
              ring_inv c2 \<and> \<not> closed c2 \<and> \<not> blocking c2 \<and> used c2 = 0 \<and>
              length (buf c2) = length (buf c)"
  proof (cases "p = []")
    case True
    then show ?thesis using c1 by (simp add: Read_empty)
  next
    case False
    then have pos: "0 < used c1" using c1 by simp
    have m: "min (length q) (used c1) = length p" using len c1 by simp
    have "length p \<le> used c1" using c1 by simp
    note st = loaded_state [OF c1(2) this]
    show ?thesis
      using Read_ok [OF c1(2) pos, of q] st c1 False unfolding m cont by simp
  qed
  then obtain c2 where c2: "Read c1 q = (c2, p @ drop (length p) q,
                if p = [] then Return 0 (Some ErrEmpty) else Return (int (length p)) None)"
      "ring_inv c2" "\<not> closed c2" "\<not> blocking c2" "used c2 = 0"
      "length (buf c2) = length (buf c)" by blast
  have "\<forall>(p, q)\<in>set rounds. length p \<le> length (buf c2) \<and> length p \<le> length q"
    using Cons.prems(5) c2(6) by simp
  from Cons.IH [OF c2(2,3,4,5) this] show ?case
    by (simp add: pq c1(1) c2(1))
qed

section \<open>The monitor is well shaped after every event\<close>

lemma shared_signal_notEmpty [simp]: "shared (signal_notEmpty m) = shared m"
  by (simp add: signal_notEmpty_def split: list.splits)

lemma notFull_signal_notEmpty [simp]: "notFull (signal_notEmpty m) = notFull m"
  by (simp add: signal_notEmpty_def split: list.splits)


lemma no_reader_signal_notEmpty [simp]: "notEmpty m = [] \<Longrightarrow> signal_notEmpty m = m"
  by (simp add: signal_notEmpty_def)

lemma shared_signals_notEmpty [simp]: "shared ((signal_notEmpty ^^ k) m) = shared m"
  by (induction k) simp_all

lemma notFull_signals_notEmpty [simp]: "notFull ((signal_notEmpty ^^ k) m) = notFull m"
  by (induction k) simp_all


lemma no_reader_signals_notEmpty [simp]: "notEmpty m = [] \<Longrightarrow> (signal_notEmpty ^^ k) m = m"
  by (induction k) simp_all

lemma shared_signal_notFull [simp]: "shared (signal_notFull m) = shared m"
  by (simp add: signal_notFull_def split: list.splits prod.splits)

lemma notEmpty_signal_notFull [simp]: "notEmpty (signal_notFull m) = notEmpty m"
  by (simp add: signal_notFull_def split: list.splits prod.splits)

lemma no_writer_signal_notFull [simp]: "notFull m = [] \<Longrightarrow> signal_notFull m = m"
  by (simp add: signal_notFull_def)









section \<open>Handoff and shutdown in the monitor\<close>

lemma shared_after_write [simp]: "shared (after_write m p (c', r) k) = c'"
  by (cases r) (simp_all add: after_write_def)

lemma shared_after_read [simp]: "shared (after_read m (c', p', r)) = c'"
proof (cases r)
  case (Return n e)
  then show ?thesis by (cases e) (simp_all add: after_read_def)
qed (simp_all add: after_read_def)

lemma shared_broadcast [simp]: "shared (broadcast m) = shared m"
  by (simp add: broadcast_def)





section \<open>A buffer of capacity 8\<close>

lemmas eval_defs = New_def nextPowerOfTwo_def max_int_def maxAlloc_def Write_def write_loop.simps
  write_chunk_def copy_seg_def Read_def write_resume_def SetBlocking_def Close_def run_def Let_def

lemma replicate_8: "replicate 8 x = [x, x, x, x, x, x, x, x]"
  by (simp add: numeral_eq_Suc)

lemma New_8: "New 8 = Inr ring8"
  by (simp add: New_def nextPowerOfTwo_def max_int_def maxAlloc_def ring8_def replicate_8)


section \<open>The claims\<close>

text \<open>
  C10. Writing an empty slice returns \<open>(0, ErrClosed)\<close> on a closed buffer and \<open>(0, nil)\<close>
  otherwise, in every state of the buffer and in both modes, and leaves the buffer as it
  was: cursors, stored bytes and flags. A full buffer in non-blocking mode is no exception.
\<close>

theorem Write_empty_slice:
  "Write c [] = (c, if closed c then Return 0 (Some ErrClosed) else Return 0 None)"
  by (simp add: Write_def write_loop.simps)

theorem Write_empty_slice_witness:
  "Write (ring8\<lparr>buf := [1, 2, 3, 4, 5, 6, 7, 8], tail := 8\<rparr>) [] =
     (ring8\<lparr>buf := [1, 2, 3, 4, 5, 6, 7, 8], tail := 8\<rparr>, Return 0 None) \<and>
   Write (ring8\<lparr>buf := [1, 2, 3, 4, 5, 6, 7, 8], tail := 8\<rparr>) [9] =
     (ring8\<lparr>buf := [1, 2, 3, 4, 5, 6, 7, 8], tail := 8\<rparr>, Return 0 (Some ErrFull))"
  using Write_empty_slice [of "ring8\<lparr>buf := [1, 2, 3, 4, 5, 6, 7, 8], tail := 8\<rparr>"]
  by (simp add: ring8_def eval_defs)

text \<open>
  C7. A buffer that \<open>New\<close> returns has \<open>head = tail = 0\<close>, is not closed and is in
  non-blocking mode: its first \<open>Read\<close> returns \<open>(0, ErrEmpty)\<close> and does not suspend.
\<close>

theorem New_default_nonblocking:
  assumes "New capacity = Inr c"
  shows "head c = 0 \<and> tail c = 0 \<and> \<not> closed c \<and> \<not> blocking c \<and>
         Read c p = (c, p, Return 0 (Some ErrEmpty))"
  using New_ring_inv [OF assms] by (simp add: Read_empty)

theorem New_default_nonblocking_witness:
  "New 8 = Inr ring8 \<and> head ring8 = 0 \<and> tail ring8 = 0 \<and> \<not> closed ring8 \<and> \<not> blocking ring8 \<and>
   Read ring8 [0, 0, 0] = (ring8, [0, 0, 0], Return 0 (Some ErrEmpty))"
  using New_default_nonblocking [OF New_8, of "[0, 0, 0]"] New_8 by simp




text \<open>
  C2. In every state that a sequence of \<open>Write\<close>, \<open>Read\<close>, \<open>SetBlocking\<close> and \<open>Close\<close>
  calls (and wake-ups of suspended calls) reaches from a buffer \<open>New\<close> returned, the
  \<open>uint64\<close> difference \<open>tail - head\<close> is at most the effective capacity, the length the
  storage was given at construction; it is the number of buffered bytes.
\<close>

theorem cursor_invariant:
  assumes "New capacity = Inr c0" and "run c0 es = (c, ws, bad)"
  shows "0 \<le> unat (tail c - head c) \<and> unat (tail c - head c) \<le> length (buf c0) \<and>
         length (buf c) = length (buf c0) \<and> length (contents c) = unat (tail c - head c)"
  using ring_inv_used [OF run_ring_inv(1) [OF assms] ] run_keeps(1) [OF assms]
  by (simp add: used_def)

theorem cursor_invariant_witness:
  "New 8 = Inr ring8 \<and>
   run ring8 [DoWrite [1, 2, 3, 4, 5], DoRead [0, 0, 0], DoSetBlocking True,
              DoWrite [6, 7, 8, 9, 10, 11, 12, 13], DoRead [0, 0, 0, 0], Wake 0, DoClose] =
     (\<lparr>buf = [9, 10, 11, 12, 13, 6, 7, 8], mask_field = 7, head = 7, tail = 13,
        closed = True, blocking = True\<rparr>, [], False) \<and>
   unat (13 - 7 :: uint64) \<le> length (buf ring8)"
proof -
  have r: "run ring8 [DoWrite [1, 2, 3, 4, 5], DoRead [0, 0, 0], DoSetBlocking True,
              DoWrite [6, 7, 8, 9, 10, 11, 12, 13], DoRead [0, 0, 0, 0], Wake 0, DoClose] =
     (\<lparr>buf = [9, 10, 11, 12, 13, 6, 7, 8], mask_field = 7, head = 7, tail = 13,
        closed = True, blocking = True\<rparr>, [], False)"
    by (simp add: ring8_def eval_defs)
  show ?thesis using cursor_invariant [OF New_8 r] New_8 r by simp
qed

text \<open>
  C5. In either mode, in every reachable state with at least one byte buffered,
  \<open>Read(p)\<close> copies \<open>min(len(p), tail - head)\<close> bytes out of the storage, from the offset
  \<open>head & mask\<close> on and round the physical end, into the front of \<open>p\<close>, advances
  \<open>head\<close> by that count and returns the count with no error.
\<close>

theorem Read_success:
  assumes "New capacity = Inr c0" and "run c0 es = (c, ws, bad)" and "tail c \<noteq> head c"
    and "k = min (length p) (unat (tail c - head c))"
  shows "Read c p =
         (c\<lparr>head := head c + word_of_nat k\<rparr>,
          map (\<lambda>i. buf c ! ((unat (head c AND mask_field c) + i) mod length (buf c))) [0..<k] @
            drop k p,
          Return (int k) None)"
proof -
  have inv: "ring_inv c" by (rule run_ring_inv(1) [OF assms(1,2)])
  have "tail c - head c \<noteq> 0" using assms(3) by simp
  then have pos: "0 < used c" by (simp add: used_def unat_gt_0)
  have k: "k = min (length p) (used c)" "k \<le> used c" using assms(4) by (simp_all add: used_def)
  have "(unat (head c AND mask_field c) + i) mod length (buf c) =
        (unat (head c) + i) mod length (buf c)" for i
    unfolding ring_inv_offset [OF inv] by (rule mod_add_left_eq)
  then have "take k (contents c) =
        map (\<lambda>i. buf c ! ((unat (head c AND mask_field c) + i) mod length (buf c))) [0..<k]"
    using k(2) by (simp add: contents_map [OF inv] take_map min_def)
  then show ?thesis using Read_ok [OF inv pos, of p] by (simp add: k(1))
qed

theorem Read_success_witness:
  "New 8 = Inr ring8 \<and>
   run ring8 [DoWrite [1, 2, 3, 4, 5, 6], DoRead [0, 0, 0, 0], DoWrite [7, 8, 9, 10] ] =
     (\<lparr>buf = [9, 10, 3, 4, 5, 6, 7, 8], mask_field = 7, head = 4, tail = 10,
        closed = False, blocking = False\<rparr>, [], False) \<and>
   Read \<lparr>buf = [9, 10, 3, 4, 5, 6, 7, 8], mask_field = 7, head = 4, tail = 10,
         closed = False, blocking = False\<rparr> [0, 0, 0, 0, 0, 0, 0, 0, 0] =
     (\<lparr>buf = [9, 10, 3, 4, 5, 6, 7, 8], mask_field = 7, head = 10, tail = 10,
        closed = False, blocking = False\<rparr>, [5, 6, 7, 8, 9, 10, 0, 0, 0], Return 6 None)"
proof -
  have r: "run ring8 [DoWrite [1, 2, 3, 4, 5, 6], DoRead [0, 0, 0, 0], DoWrite [7, 8, 9, 10] ] =
     (\<lparr>buf = [9, 10, 3, 4, 5, 6, 7, 8], mask_field = 7, head = 4, tail = 10,
        closed = False, blocking = False\<rparr>, [], False)"
    by (simp add: ring8_def eval_defs)
  have "[0..<6] = [0, 1, 2, 3, 4, 5]" by code_simp
  with Read_success [OF New_8 r, of 6 "[0, 0, 0, 0, 0, 0, 0, 0, 0]"] New_8 r show ?thesis
    by simp
qed

text \<open>
  C4. In non-blocking mode, in every reachable state of an open buffer, \<open>Write(p)\<close> places
  the bytes that fit: all of \<open>p\<close> with no error, or the free space with \<open>ErrFull\<close>. On a
  full buffer a write of one byte or more returns \<open>(0, ErrFull)\<close> and changes nothing. With
  capacity 8, one byte on 8 buffered gives \<open>(0, ErrFull)\<close> and ten bytes on 6 buffered give
  \<open>(2, ErrFull)\<close>.
\<close>

theorem Write_nonblocking_full:
  assumes "New capacity = Inr c0" and "run c0 es = (c, ws, bad)"
    and "\<not> closed c" and "\<not> blocking c"
    and "free = length (buf c) - unat (tail c - head c)"
  shows "\<exists>c'. Write c p =
           (c', if length p \<le> free then Return (int (length p)) None
                else Return (int free) (Some ErrFull)) \<and>
         unat (tail c' - head c') = unat (tail c - head c) + min (length p) free \<and>
         contents c' = contents c @ take free p \<and>
         (free = 0 \<longrightarrow> c' = c)"
proof -
  have inv: "ring_inv c" by (rule run_ring_inv(1) [OF assms(1,2)])
  have free: "free = length (buf c) - used c" using assms(5) by (simp add: used_def)
  define k where "k = min (length p) free"
  have "\<exists>c'. Write c p =
           (c', if k = length p then Return (int (length p)) None
                else if blocking c then Wait (int k)
                else Return (int k) (Some ErrFull)) \<and>
         used c' = used c + k \<and> contents c' = contents c @ take k p \<and> (k = 0 \<longrightarrow> c' = c)"
    using Write_open [OF inv assms(3), of p] unfolding free k_def
    by (elim exE conjE) (rule exI, (intro conjI; assumption))
  then obtain c' where c': "Write c p =
           (c', if k = length p then Return (int (length p)) None
                else if blocking c then Wait (int k)
                else Return (int k) (Some ErrFull))"
      "used c' = used c + k" "contents c' = contents c @ take k p" "k = 0 \<longrightarrow> c' = c"
    by blast
  have t: "take k p = take free p" by (simp add: k_def min_def)
  show ?thesis
  proof (cases "length p \<le> free")
    case True
    then have "k = length p" by (simp add: k_def)
    then show ?thesis using c' True t by (auto simp: used_def)
  next
    case False
    then have "k = free" "k \<noteq> length p" by (simp_all add: k_def)
    then show ?thesis using c' False t assms(4) by (auto simp: used_def)
  qed
qed

theorem Write_nonblocking_full_witness:
  "New 8 = Inr ring8 \<and>
   run ring8 [DoWrite [1, 2, 3, 4, 5, 6, 7, 8] ] =
     (ring8\<lparr>buf := [1, 2, 3, 4, 5, 6, 7, 8], tail := 8\<rparr>, [], False) \<and>
   Write (ring8\<lparr>buf := [1, 2, 3, 4, 5, 6, 7, 8], tail := 8\<rparr>) [9] =
     (ring8\<lparr>buf := [1, 2, 3, 4, 5, 6, 7, 8], tail := 8\<rparr>, Return 0 (Some ErrFull)) \<and>
   run ring8 [DoWrite [1, 2, 3, 4, 5, 6] ] =
     (ring8\<lparr>buf := [1, 2, 3, 4, 5, 6, 0, 0], tail := 6\<rparr>, [], False) \<and>
   fst (Write (ring8\<lparr>buf := [1, 2, 3, 4, 5, 6, 0, 0], tail := 6\<rparr>)
          [11, 12, 13, 14, 15, 16, 17, 18, 19, 20]) =
     ring8\<lparr>buf := [1, 2, 3, 4, 5, 6, 11, 12], tail := 8\<rparr> \<and>
   snd (Write (ring8\<lparr>buf := [1, 2, 3, 4, 5, 6, 0, 0], tail := 6\<rparr>)
          [11, 12, 13, 14, 15, 16, 17, 18, 19, 20]) = Return 2 (Some ErrFull)"
proof -
  have r8: "run ring8 [DoWrite [1, 2, 3, 4, 5, 6, 7, 8] ] =
     (ring8\<lparr>buf := [1, 2, 3, 4, 5, 6, 7, 8], tail := 8\<rparr>, [], False)"
    by (simp add: ring8_def eval_defs)
  have r6: "run ring8 [DoWrite [1, 2, 3, 4, 5, 6] ] =
     (ring8\<lparr>buf := [1, 2, 3, 4, 5, 6, 0, 0], tail := 6\<rparr>, [], False)"
    by (simp add: ring8_def eval_defs)
  have w6: "fst (Write (ring8\<lparr>buf := [1, 2, 3, 4, 5, 6, 0, 0], tail := 6\<rparr>)
          [11, 12, 13, 14, 15, 16, 17, 18, 19, 20]) =
     ring8\<lparr>buf := [1, 2, 3, 4, 5, 6, 11, 12], tail := 8\<rparr>"
    by (simp add: ring8_def eval_defs)
  have f8: "(0::nat) = length (buf (ring8\<lparr>buf := [1, 2, 3, 4, 5, 6, 7, 8], tail := 8\<rparr>)) -
      unat (tail (ring8\<lparr>buf := [1, 2, 3, 4, 5, 6, 7, 8], tail := 8\<rparr>) -
            head (ring8\<lparr>buf := [1, 2, 3, 4, 5, 6, 7, 8], tail := 8\<rparr>))"
    by (simp add: ring8_def)
  have f6: "(2::nat) = length (buf (ring8\<lparr>buf := [1, 2, 3, 4, 5, 6, 0, 0], tail := 6\<rparr>)) -
      unat (tail (ring8\<lparr>buf := [1, 2, 3, 4, 5, 6, 0, 0], tail := 6\<rparr>) -
            head (ring8\<lparr>buf := [1, 2, 3, 4, 5, 6, 0, 0], tail := 6\<rparr>))"
    by (simp add: ring8_def)
  have nc: "\<not> closed (ring8\<lparr>buf := b, tail := t\<rparr>)" "\<not> blocking (ring8\<lparr>buf := b, tail := t\<rparr>)"
    for b t by (simp_all add: ring8_def)
  from Write_nonblocking_full [OF New_8 r8 nc f8, of "[9]"]
    Write_nonblocking_full [OF New_8 r6 nc f6, of "[11, 12, 13, 14, 15, 16, 17, 18, 19, 20]"]
    New_8 r8 r6 w6
  show ?thesis by auto
qed

text \<open>
  C3. In every state reached by a sequence of events that holds a \<open>Close\<close>, a new \<open>Write\<close>
  returns \<open>(0, ErrClosed)\<close> and changes nothing, whatever the free space; a \<open>Read\<close> returns
  the buffered bytes that fit its slice, with no error, while \<open>tail\<close> differs from \<open>head\<close>,
  and \<open>(0, ErrClosed)\<close> once they are equal.
\<close>

theorem Close_drain_then_fail:
  assumes "New capacity = Inr c0" and "run c0 es = (c, ws, bad)" and "DoClose \<in> set es"
    and "k = min (length q) (unat (tail c - head c))"
  shows "Write c p = (c, Return 0 (Some ErrClosed)) \<and>
         Read c q =
           (if tail c = head c then (c, q, Return 0 (Some ErrClosed))
            else (c\<lparr>head := head c + word_of_nat k\<rparr>, take k (contents c) @ drop k q,
                  Return (int k) None))"
proof -
  have inv: "ring_inv c" by (rule run_ring_inv(1) [OF assms(1,2)])
  have cl: "closed c" by (rule run_keeps(2) [OF assms(1,2,3)])
  have u: "used c = 0 \<longleftrightarrow> tail c = head c" by (simp add: used_def unat_eq_0)
  show ?thesis
  proof (cases "tail c = head c")
    case True
    then show ?thesis using cl u by (simp add: Write_closed Read_empty [OF inv])
  next
    case False
    then have "0 < used c" using u by simp
    from Read_ok [OF inv this, of q] False cl assms(4) show ?thesis
      by (simp add: Write_closed used_def)
  qed
qed

theorem Close_drain_then_fail_witness:
  "New 8 = Inr ring8 \<and>
   run ring8 [DoWrite [1, 2, 3, 4, 5], DoRead [0, 0, 0], DoClose] =
     (\<lparr>buf = [1, 2, 3, 4, 5, 0, 0, 0], mask_field = 7, head = 3, tail = 5,
        closed = True, blocking = False\<rparr>, [], False) \<and>
   Write \<lparr>buf = [1, 2, 3, 4, 5, 0, 0, 0], mask_field = 7, head = 3, tail = 5,
          closed = True, blocking = False\<rparr> [9] =
     (\<lparr>buf = [1, 2, 3, 4, 5, 0, 0, 0], mask_field = 7, head = 3, tail = 5,
        closed = True, blocking = False\<rparr>, Return 0 (Some ErrClosed)) \<and>
   Read \<lparr>buf = [1, 2, 3, 4, 5, 0, 0, 0], mask_field = 7, head = 3, tail = 5,
         closed = True, blocking = False\<rparr> [0, 0, 0] =
     (\<lparr>buf = [1, 2, 3, 4, 5, 0, 0, 0], mask_field = 7, head = 5, tail = 5,
        closed = True, blocking = False\<rparr>, [4, 5, 0], Return 2 None) \<and>
   Read \<lparr>buf = [1, 2, 3, 4, 5, 0, 0, 0], mask_field = 7, head = 5, tail = 5,
         closed = True, blocking = False\<rparr> [0, 0, 0] =
     (\<lparr>buf = [1, 2, 3, 4, 5, 0, 0, 0], mask_field = 7, head = 5, tail = 5,
        closed = True, blocking = False\<rparr>, [0, 0, 0], Return 0 (Some ErrClosed))"
proof -
  have r: "run ring8 [DoWrite [1, 2, 3, 4, 5], DoRead [0, 0, 0], DoClose] =
     (\<lparr>buf = [1, 2, 3, 4, 5, 0, 0, 0], mask_field = 7, head = 3, tail = 5,
        closed = True, blocking = False\<rparr>, [], False)"
    by (simp add: ring8_def eval_defs)
  have r2: "run ring8 [DoWrite [1, 2, 3, 4, 5], DoRead [0, 0, 0], DoClose, DoRead [0, 0, 0] ] =
     (\<lparr>buf = [1, 2, 3, 4, 5, 0, 0, 0], mask_field = 7, head = 5, tail = 5,
        closed = True, blocking = False\<rparr>, [], False)"
    by (simp add: ring8_def eval_defs)
  have "[0..<2] = [0, 1]" by code_simp
  then have "contents \<lparr>buf = [1, 2, 3, 4, 5, 0, 0, 0], mask_field = 7, head = 3, tail = 5,
        closed = True, blocking = False\<rparr> = [4, 5]"
    by (simp add: contents_def used_def)
  with Close_drain_then_fail [OF New_8 r, of 2 "[0, 0, 0]" "[9]"]
    Close_drain_then_fail [OF New_8 r2, of 0 "[0, 0, 0]" "[9]"] New_8 r
  show ?thesis by simp
qed

text \<open>
  C1. On a buffer \<open>New\<close> returned: when the slices \<open>ps\<close> together are no longer than the
  effective capacity, every \<open>Write\<close> of them in turn returns its full length with no error,
  and a \<open>Read\<close> into a slice at least that long then returns their concatenation, in
  order, at the front of the slice (with \<open>ErrEmpty\<close> when there was nothing to write).
  And when each round writes a slice no longer than the capacity and reads it into a slice
  no shorter, every round's \<open>Read\<close> returns the bytes that round wrote, however often the
  cursors pass the physical end of the storage.
\<close>

theorem round_trip:
  assumes "New capacity = Inr c0"
  shows "(length (concat ps) \<le> length (buf c0) \<and> length (concat ps) \<le> length q \<longrightarrow>
            (\<exists>c c'. write_all c0 ps = (c, map (\<lambda>p. Return (int (length p)) None) ps) \<and>
                    Read c q =
                      (c', concat ps @ drop (length (concat ps)) q,
                       if concat ps = [] then Return 0 (Some ErrEmpty)
                       else Return (int (length (concat ps))) None))) \<and>
         ((\<forall>(p, q)\<in>set rounds. length p \<le> length (buf c0) \<and> length p \<le> length q) \<longrightarrow>
            write_read_rounds c0 rounds =
              map (\<lambda>(p, q). (Return (int (length p)) None, p @ drop (length p) q,
                             if p = [] then Return 0 (Some ErrEmpty)
                             else Return (int (length p)) None)) rounds)"
proof (intro conjI impI)
  note fresh = New_ring_inv [OF assms]
  assume len: "length (concat ps) \<le> length (buf c0) \<and> length (concat ps) \<le> length q"
  then have "used c0 + length (concat ps) \<le> length (buf c0)" using fresh(6) by simp
  from write_all_fits [OF fresh(1,4) this] obtain c where
    c: "write_all c0 ps = (c, map (\<lambda>p. Return (int (length p)) None) ps)" "ring_inv c"
      "\<not> closed c" "blocking c = blocking c0" "used c = used c0 + length (concat ps)"
      "contents c = contents c0 @ concat ps" by blast
  have "contents c0 = []" using fresh(6) by (simp add: contents_def)
  then have cont: "contents c = concat ps" "used c = length (concat ps)"
    using c fresh(6) by simp_all
  have "\<exists>c'. Read c q =
          (c', concat ps @ drop (length (concat ps)) q,
           if concat ps = [] then Return 0 (Some ErrEmpty)
           else Return (int (length (concat ps))) None)"
  proof (cases "concat ps = []")
    case True
    then have "used c = 0" using cont by simp
    then have r: "Read c q = (c, q, Return 0 (Some ErrEmpty))"
      using c(3,4) fresh(5) by (simp add: Read_empty [OF c(2)])
    show ?thesis unfolding True by (rule exI [of _ c]) (simp add: r)
  next
    case False
    then have pos: "0 < used c" using cont by simp
    have "min (length q) (used c) = length (concat ps)" using len cont by simp
    then show ?thesis using Read_ok [OF c(2) pos, of q] False cont by simp
  qed
  then show "\<exists>c c'. write_all c0 ps = (c, map (\<lambda>p. Return (int (length p)) None) ps) \<and>
                    Read c q =
                      (c', concat ps @ drop (length (concat ps)) q,
                       if concat ps = [] then Return 0 (Some ErrEmpty)
                       else Return (int (length (concat ps))) None)"
    using c(1) by blast
next
  note fresh = New_ring_inv [OF assms]
  assume "\<forall>(p, q)\<in>set rounds. length p \<le> length (buf c0) \<and> length p \<le> length q"
  then show "write_read_rounds c0 rounds =
              map (\<lambda>(p, q). (Return (int (length p)) None, p @ drop (length p) q,
                             if p = [] then Return 0 (Some ErrEmpty)
                             else Return (int (length p)) None)) rounds"
    by (rule write_read_rounds_ok [OF fresh(1,4,5,6)])
qed

theorem round_trip_witness:
  "New 8 = Inr ring8 \<and>
   write_all ring8 [ [1, 2, 3], [4, 5], [6, 7, 8] ] =
     (ring8\<lparr>buf := [1, 2, 3, 4, 5, 6, 7, 8], tail := 8\<rparr>,
      [Return 3 None, Return 2 None, Return 3 None]) \<and>
   Read (ring8\<lparr>buf := [1, 2, 3, 4, 5, 6, 7, 8], tail := 8\<rparr>) [0, 0, 0, 0, 0, 0, 0, 0, 0, 0] =
     (ring8\<lparr>buf := [1, 2, 3, 4, 5, 6, 7, 8], tail := 8, head := 8\<rparr>,
      [1, 2, 3, 4, 5, 6, 7, 8, 0, 0], Return 8 None) \<and>
   write_read_rounds ring8
     [([1, 2, 3, 4, 5], [0, 0, 0, 0, 0]), ([6, 7, 8, 9, 10], [0, 0, 0, 0, 0]),
      ([11, 12, 13, 14, 15], [0, 0, 0, 0, 0, 0])] =
     [(Return 5 None, [1, 2, 3, 4, 5], Return 5 None),
      (Return 5 None, [6, 7, 8, 9, 10], Return 5 None),
      (Return 5 None, [11, 12, 13, 14, 15, 0], Return 5 None)]"
proof -
  have w: "write_all ring8 [ [1, 2, 3], [4, 5], [6, 7, 8] ] =
     (ring8\<lparr>buf := [1, 2, 3, 4, 5, 6, 7, 8], tail := 8\<rparr>,
      [Return 3 None, Return 2 None, Return 3 None])"
    by (simp add: ring8_def eval_defs)
  from round_trip [OF New_8, of "[ [1, 2, 3], [4, 5], [6, 7, 8] ]" "[0, 0, 0, 0, 0, 0, 0, 0, 0, 0]"
      "[([1, 2, 3, 4, 5], [0, 0, 0, 0, 0]), ([6, 7, 8, 9, 10], [0, 0, 0, 0, 0]),
        ([11, 12, 13, 14, 15], [0, 0, 0, 0, 0, 0])]"] New_8 w
  show ?thesis by (simp add: ring8_def eval_defs)
qed

text \<open>
  C8 as it is stated fails: the capacity \<open>2 ^ 48 + 1\<close> is positive, and \<open>New\<close> panics on
  it, in \<open>make\<close>, the rounded length \<open>2 ^ 49\<close> being more than \<open>maxAlloc\<close>.
\<close>

theorem New_panics_counterexample:
  "0 < sint (281474976710657 :: int64) \<and>
   New 281474976710657 = Inl ''makeslice: len out of range''"
  by (simp add: New_def nextPowerOfTwo_def max_int_def maxAlloc_def)

text \<open>
  C8, as the code has it. \<open>New\<close> panics with its precondition message exactly on a capacity
  of 0 or less. It returns a buffer exactly on the capacities from 1 to \<open>2 ^ 48\<close>; on a larger
  one the rounded length exceeds \<open>maxAlloc\<close> and \<open>make\<close> panics. No \<open>Read\<close>, \<open>Write\<close>,
  \<open>SetBlocking\<close>, \<open>Close\<close> or wake-up on a buffer \<open>New\<close> returned panics.
\<close>

theorem panic_freedom:
  "(New capacity = Inl ''circulis: capacity must be > 0'' \<longleftrightarrow> sint capacity \<le> 0) \<and>
   (New capacity = Inl ''makeslice: len out of range'' \<longleftrightarrow> 2 ^ 48 < sint capacity) \<and>
   ((\<exists>c. New capacity = Inr c) \<longleftrightarrow> 0 < sint capacity \<and> sint capacity \<le> 2 ^ 48) \<and>
   (\<forall>c0 es c ws bad. New capacity = Inr c0 \<and> run c0 es = (c, ws, bad) \<longrightarrow>
      \<not> bad \<and> snd (Write c p) \<noteq> Panic \<and> snd (snd (Read c q)) \<noteq> Panic)"
proof -
  have new: "(New capacity = Inl ''circulis: capacity must be > 0'' \<longleftrightarrow> sint capacity \<le> 0) \<and>
   (New capacity = Inl ''makeslice: len out of range'' \<longleftrightarrow> 2 ^ 48 < sint capacity) \<and>
   ((\<exists>c. New capacity = Inr c) \<longleftrightarrow> 0 < sint capacity \<and> sint capacity \<le> 2 ^ 48)"
  proof (cases "sint capacity < 1")
    case True
    then show ?thesis by (simp add: New_precondition)
  next
    case False
    then have "1 \<le> sint capacity" by simp
    then show ?thesis
    proof (cases rule: New_cases)
      case (made k)
      then show ?thesis using False by simp
    next
      case (toobig k)
      then show ?thesis using False by simp
    qed
  qed
  have ops: "\<not> bad \<and> snd (Write c p) \<noteq> Panic \<and> snd (snd (Read c q)) \<noteq> Panic"
    if "New capacity = Inr c0" and "run c0 es = (c, ws, bad)" for c0 es c ws bad
  proof -
    have inv: "ring_inv c" and "\<not> bad" by (rule run_ring_inv [OF that])+
    moreover have "snd (Write c p) \<noteq> Panic"
      using Write_inv(2) [OF inv, of p] by (cases "Write c p") simp
    moreover have "snd (snd (Read c q)) \<noteq> Panic"
      using Read_inv(2) [OF inv, of q] by (cases "Read c q") simp
    ultimately show ?thesis by simp
  qed
  show ?thesis using new ops by blast
qed

theorem panic_freedom_witness:
  "0 < sint (8 :: int64) \<and> sint (8 :: int64) \<le> 2 ^ 48 \<and> New 8 = Inr ring8 \<and>
   New 0 = Inl ''circulis: capacity must be > 0'' \<and>
   run ring8 [DoWrite [1, 2, 3, 4, 5], DoSetBlocking True, DoWrite [6, 7, 8, 9, 10], DoClose] =
     (\<lparr>buf = [1, 2, 3, 4, 5, 6, 7, 8], mask_field = 7, head = 0, tail = 8,
        closed = True, blocking = True\<rparr>, [WaitingWrite [6, 7, 8, 9, 10] 3], False) \<and>
   snd (Write \<lparr>buf = [1, 2, 3, 4, 5, 6, 7, 8], mask_field = 7, head = 0, tail = 8,
        closed = True, blocking = True\<rparr> [1]) \<noteq> Panic \<and>
   snd (snd (Read \<lparr>buf = [1, 2, 3, 4, 5, 6, 7, 8], mask_field = 7, head = 0, tail = 8,
        closed = True, blocking = True\<rparr> [0, 0])) \<noteq> Panic"
proof -
  have r: "run ring8 [DoWrite [1, 2, 3, 4, 5], DoSetBlocking True, DoWrite [6, 7, 8, 9, 10], DoClose] =
     (\<lparr>buf = [1, 2, 3, 4, 5, 6, 7, 8], mask_field = 7, head = 0, tail = 8,
        closed = True, blocking = True\<rparr>, [WaitingWrite [6, 7, 8, 9, 10] 3], False)"
    by (simp add: ring8_def eval_defs)
  from panic_freedom [of 8 "[1]" "[0, 0]"] panic_freedom [of 0 "[1]" "[0, 0]"] New_8 r
  show ?thesis by auto
qed




end
